theory Spec2Isabelle
  imports Main "HOL-Library.Word"
begin

unbundle bit_operations_syntax

section \<open>The generic assembler of Tachyon (source/backend/asm.js)\<close>

subsection \<open>Items of a code block\<close>

text \<open>
  The array \<open>code\<close> of a code block holds JavaScript numbers and objects whose
  \<open>type\<close> is \<open>asm.type.LBL\<close>, \<open>asm.type.DEF\<close> or \<open>asm.type.LST\<close>.
  Labels and deferred objects are mutable and are shared between the array \<open>code\<close>,
  the fixup list of \<open>assemble\<close> and the closures of the check and production
  procedures; they are modelled as references into a heap.
\<close>

type_synonym label_ref = nat
type_synonym deferred_ref = nat

datatype item = Num int | LBL label_ref | DEF deferred_ref | LST string

text \<open>The field \<open>_pos\<close> of every label; \<open>None\<close> is \<open>null\<close>.\<close>

type_synonym label_heap = "label_ref \<Rightarrow> int option"

text \<open>
  A check procedure \<open>check(cb, pos)\<close> reads label positions through \<open>getPos\<close> and the
  position it is given, and returns \<open>null\<close> (\<open>None\<close>) or a size. A production procedure
  \<open>prod(cb, pos)\<close> adds bytes with \<open>gen8\<close> (directly or through \<open>gen16\<close>,
  \<open>gen32\<close>, \<open>gen64\<close>); it is modelled by the list of the arguments of its calls to
  \<open>gen8\<close>.
\<close>

type_synonym check = "label_heap \<Rightarrow> int \<Rightarrow> int option"
type_synonym prod = "label_heap \<Rightarrow> int \<Rightarrow> int list"

text \<open>
  A deferred object. The field \<open>length\<close> of the source is set to \<open>checks.length\<close> by
  the constructor and never assigned again; the model reads \<open>length (checks d)\<close>.
\<close>

record deferred =
  checks :: "check list"
  prods :: "prod list"
  current :: nat
  size_d :: int

type_synonym deferred_heap = "deferred_ref \<Rightarrow> deferred"

record CodeBlock =
  startPos :: int
  bigEndian :: bool
  useListing :: bool
  code :: "item list"

datatype asm_error =
    UndefinedLabel
  | LabelMultiplyDefined
  | NoValidCheck
  | InconsistencyDetected
  | NotAFunction
  | InvalidDeferred
  | AddressOverflow
  | AddressUnderflow
  | WidthMismatch
  | InvalidAddress
  | OutOfBoundsWrite

subsection \<open>Primitive emission\<close>

text \<open>The method \<open>extend\<close> (the record package has its own constant of that name).\<close>

definition extend_cb :: "CodeBlock \<Rightarrow> item \<Rightarrow> CodeBlock" where
  "extend_cb cb x = cb\<lparr>code := code cb @ [x]\<rparr>"

text \<open>\<open>num_and(n, 0xff)\<close> is the bitwise and of the two's-complement integer \<open>n\<close>.\<close>

definition gen8 :: "CodeBlock \<Rightarrow> int \<Rightarrow> CodeBlock" where
  "gen8 cb n = extend_cb cb (Num (n AND 255))"

definition genListing :: "CodeBlock \<Rightarrow> string \<Rightarrow> CodeBlock" where
  "genListing cb text = extend_cb cb (LST text)"

text \<open>\<open>genLabel\<close>: a label whose \<open>_pos\<close> is not \<open>null\<close> is multiply defined.\<close>

definition genLabel :: "CodeBlock \<Rightarrow> label_heap \<Rightarrow> label_ref \<Rightarrow> asm_error + (CodeBlock \<times> label_heap)" where
  "genLabel cb L l =
     (if L l \<noteq> None then Inl LabelMultiplyDefined
      else Inr (extend_cb cb (LBL l), L(l \<mapsto> 0)))"

text \<open>The constructor \<open>deferred\<close> with its three assertions.\<close>

definition deferred :: "check list \<Rightarrow> prod list \<Rightarrow> asm_error + deferred" where
  "deferred cs ps =
     (if \<not> length cs \<ge> 1 then Inl InvalidDeferred
      else if \<not> length ps \<ge> 1 then Inl InvalidDeferred
      else if length cs \<noteq> length ps then Inl InvalidDeferred
      else Inr \<lparr>checks = cs, prods = ps, current = 0, size_d = 0\<rparr>)"

text \<open>
  \<open>origin\<close> declares the procedures \<open>nb_bytes\<close> and \<open>add_bytes\<close> and returns
  \<open>this\<close>: neither procedure is called or handed to \<open>genDeferred\<close>.
\<close>

definition origin :: "CodeBlock \<Rightarrow> int \<Rightarrow> int \<Rightarrow> CodeBlock" where
  "origin cb address fill = cb"

text \<open>\<open>byteNb\<close> counts the numbers of the array \<open>code\<close>.\<close>

fun is_number :: "item \<Rightarrow> bool" where
  "is_number (Num n) = True"
| "is_number _ = False"

definition byteNb :: "CodeBlock \<Rightarrow> nat" where
  "byteNb cb = length (filter is_number (code cb))"

subsection \<open>assemble\<close>

text \<open>
  First loop of \<open>assemble\<close>: the fixup list and the initial positions of the labels.
  A number advances \<open>span\<close> and \<open>pos\<close>; a label is given \<open>pos\<close> and pushed with the
  span; a deferred object is pushed with the span; anything else is skipped.
\<close>

fun create_fixups ::
  "item list \<Rightarrow> int \<Rightarrow> int \<Rightarrow> label_heap \<Rightarrow> (int \<times> item) list
     \<Rightarrow> (int \<times> item) list \<times> label_heap" where
  "create_fixups [] span pos L fixupList = (fixupList, L)"
| "create_fixups (Num n # xs) span pos L fixupList =
     create_fixups xs (span + 1) (pos + 1) L fixupList"
| "create_fixups (LBL l # xs) span pos L fixupList =
     create_fixups xs 0 pos (L(l \<mapsto> pos)) (fixupList @ [(span, LBL l)])"
| "create_fixups (DEF d # xs) span pos L fixupList =
     create_fixups xs 0 pos L (fixupList @ [(span, DEF d)])"
| "create_fixups (LST t # xs) span pos L fixupList =
     create_fixups xs span pos L fixupList"

text \<open>
  The inner loop \<open>while (curr.current < curr.length)\<close>: the checks are tried from
  \<open>current\<close> on; the result is the new \<open>current\<close> and \<open>newSize\<close>.
\<close>

function try_checks :: "check list \<Rightarrow> label_heap \<Rightarrow> int \<Rightarrow> nat \<Rightarrow> nat \<times> int option" where
  "try_checks cs L pos cur =
     (if cur < length cs then
        (case (cs ! cur) L pos of
           Some newSize \<Rightarrow> (cur, Some newSize)
         | None \<Rightarrow> try_checks cs L pos (Suc cur))
      else (cur, None))"
  by pat_completeness auto
termination
  by (relation "measure (\<lambda>(cs, L, pos, cur). length cs - cur)") auto

declare try_checks.simps [simp del]

text \<open>
  One entry of the fixup list in the sizing loop. The result is the position after the
  entry, the heap of deferred objects and \<open>hasChanged\<close>.
\<close>

definition size_entry ::
  "int \<times> item \<Rightarrow> label_heap \<Rightarrow> int \<Rightarrow> deferred_heap \<Rightarrow> bool
     \<Rightarrow> asm_error + (int \<times> deferred_heap \<times> bool)" where
  "size_entry e L pos0 D hasChanged =
     (let pos = pos0 + fst e in
      case snd e of
        DEF d \<Rightarrow>
          (let oldSize = size_d (D d);
               r = try_checks (checks (D d)) L pos (current (D d))
           in case snd r of
                None \<Rightarrow> Inl NoValidCheck
              | Some newSize \<Rightarrow>
                  if oldSize \<noteq> newSize
                  then Inr (pos + oldSize + oldSize,
                            D(d := (D d)\<lparr>current := fst r, size_d := newSize\<rparr>), True)
                  else Inr (pos + oldSize, D(d := (D d)\<lparr>current := fst r\<rparr>), hasChanged))
      | _ \<Rightarrow> Inr (pos, D, hasChanged))"

fun deferred_pass ::
  "(int \<times> item) list \<Rightarrow> label_heap \<Rightarrow> int \<Rightarrow> deferred_heap \<Rightarrow> bool
     \<Rightarrow> asm_error + (deferred_heap \<times> bool)" where
  "deferred_pass [] L pos D hasChanged = Inr (D, hasChanged)"
| "deferred_pass (e # fl) L pos D hasChanged =
     (case size_entry e L pos D hasChanged of
        Inl err \<Rightarrow> Inl err
      | Inr (pos', D', hasChanged') \<Rightarrow> deferred_pass fl L pos' D' hasChanged')"

text \<open>The second loop of the fix-point: the positions of the labels.\<close>

fun label_pass ::
  "(int \<times> item) list \<Rightarrow> deferred_heap \<Rightarrow> int \<Rightarrow> label_heap \<Rightarrow> bool
     \<Rightarrow> asm_error + (label_heap \<times> bool)" where
  "label_pass [] D pos L hasChanged = Inr (L, hasChanged)"
| "label_pass ((span, LBL l) # fl) D pos L hasChanged =
     (case L l of
        None \<Rightarrow> Inl UndefinedLabel
      | Some p \<Rightarrow>
          if p \<noteq> pos + span then label_pass fl D (pos + span) (L(l \<mapsto> pos + span)) True
          else label_pass fl D (pos + span) L hasChanged)"
| "label_pass ((span, DEF d) # fl) D pos L hasChanged =
     label_pass fl D (pos + span + size_d (D d)) L hasChanged"
| "label_pass ((span, Num n) # fl) D pos L hasChanged =
     label_pass fl D (pos + span) L hasChanged"
| "label_pass ((span, LST t) # fl) D pos L hasChanged =
     label_pass fl D (pos + span) L hasChanged"

text \<open>
  The body of the loop \<open>while (hasChanged)\<close>: \<open>hasChanged\<close> is reset, the
  sizes of the deferred objects are determined, then the positions of the labels.
\<close>

definition fix_point_body ::
  "(int \<times> item) list \<Rightarrow> int \<Rightarrow> label_heap \<Rightarrow> deferred_heap
     \<Rightarrow> asm_error + (label_heap \<times> deferred_heap \<times> bool)" where
  "fix_point_body fl start L D =
     (case deferred_pass fl L start D False of
        Inl err \<Rightarrow> Inl err
      | Inr (D', hasChanged) \<Rightarrow>
          (case label_pass fl D' start L hasChanged of
             Inl err \<Rightarrow> Inl err
           | Inr (L', hasChanged') \<Rightarrow> Inr (L', D', hasChanged')))"

text \<open>
  The loop \<open>while (hasChanged)\<close>. Nothing bounds its number of iterations, so the model
  counts them down from \<open>fuel\<close>: \<open>None\<close> means that the loop has not ended within
  \<open>fuel\<close> iterations.
\<close>

fun fix_point ::
  "nat \<Rightarrow> (int \<times> item) list \<Rightarrow> int \<Rightarrow> label_heap \<Rightarrow> deferred_heap
     \<Rightarrow> (asm_error + (label_heap \<times> deferred_heap)) option" where
  "fix_point 0 fl start L D = None"
| "fix_point (Suc fuel) fl start L D =
     (case fix_point_body fl start L D of
        Inl err \<Rightarrow> Some (Inl err)
      | Inr (L', D', hasChanged) \<Rightarrow>
          if hasChanged then fix_point fuel fl start L' D'
          else Some (Inr (L', D')))"

text \<open>
  The last loop: the new array \<open>code\<close>. Calling \<open>prods[current]\<close> when \<open>current\<close> is
  not an index of \<open>prods\<close> calls \<open>undefined\<close>, a TypeError.
\<close>

fun generate ::
  "item list \<Rightarrow> label_heap \<Rightarrow> deferred_heap \<Rightarrow> int \<Rightarrow> item list
     \<Rightarrow> asm_error + (item list \<times> int)" where
  "generate [] L D pos newCode = Inr (newCode, pos)"
| "generate (Num n # xs) L D pos newCode = generate xs L D (pos + 1) (newCode @ [Num n])"
| "generate (LBL l # xs) L D pos newCode =
     (case L l of
        None \<Rightarrow> Inl UndefinedLabel
      | Some p \<Rightarrow> if p \<noteq> pos then Inl InconsistencyDetected else generate xs L D pos newCode)"
| "generate (DEF d # xs) L D pos newCode =
     (if current (D d) < length (prods (D d))
      then generate xs L D (pos + size_d (D d))
             (newCode @ map (\<lambda>n. Num (n AND 255)) ((prods (D d) ! current (D d)) L pos))
      else Inl NotAFunction)"
| "generate (LST t # xs) L D pos newCode = generate xs L D pos (newCode @ [LST t])"

text \<open>
  \<open>assemble\<close>: the returned number, the code block with its new array \<open>code\<close>, and the
  two heaps.
\<close>

definition assemble ::
  "nat \<Rightarrow> CodeBlock \<Rightarrow> label_heap \<Rightarrow> deferred_heap
     \<Rightarrow> (asm_error + (int \<times> CodeBlock \<times> label_heap \<times> deferred_heap)) option" where
  "assemble fuel cb L D =
     (let oldCode = code cb;
          (fixupList, L0) = create_fixups oldCode 0 (startPos cb) L []
      in case fix_point fuel fixupList (startPos cb) L0 D of
           None \<Rightarrow> None
         | Some (Inl err) \<Rightarrow> Some (Inl err)
         | Some (Inr (L', D')) \<Rightarrow>
             (case generate oldCode L' D' (startPos cb) [] of
                Inl err \<Rightarrow> Some (Inl err)
              | Inr (newCode, pos) \<Rightarrow> Some (Inr (pos, cb\<lparr>code := newCode\<rparr>, L', D'))))"

section \<open>Machine addresses (asm.address)\<close>

subsection \<open>JavaScript numbers\<close>

text \<open>
  The elements of \<open>addrElemArray\<close> and the local variable \<open>res\<close> are JavaScript
  numbers. Reading an array beyond its length gives \<open>undefined\<close>, which arithmetic
  turns into \<open>NaN\<close>; both are modelled by \<open>NaN\<close>. Integers are exact far beyond the
  values that occur here, so a number that is not \<open>NaN\<close> is an \<open>int\<close>.
\<close>

datatype jsnum = Number int | NaN

fun js_plus :: "jsnum \<Rightarrow> jsnum \<Rightarrow> jsnum" where
  "js_plus (Number a) (Number b) = Number (a + b)"
| "js_plus _ _ = NaN"

fun js_minus :: "jsnum \<Rightarrow> jsnum \<Rightarrow> jsnum" where
  "js_minus (Number a) (Number b) = Number (a - b)"
| "js_minus _ _ = NaN"

text \<open>\<open>res >= 0\<close>: a comparison with \<open>NaN\<close> is false.\<close>

fun js_ge0 :: "jsnum \<Rightarrow> bool" where
  "js_ge0 (Number a) = (a \<ge> 0)"
| "js_ge0 NaN = False"

text \<open>
  The bitwise operators convert their operands to signed 32-bit integers first
  (\<open>ToInt32\<close>, with \<open>NaN\<close> converted to 0).
\<close>

fun ToInt32 :: "jsnum \<Rightarrow> int" where
  "ToInt32 (Number a) = signed_take_bit 31 a"
| "ToInt32 NaN = 0"

definition js_and :: "jsnum \<Rightarrow> jsnum \<Rightarrow> int" where
  "js_and a b = ToInt32 a AND ToInt32 b"

definition js_shr :: "jsnum \<Rightarrow> nat \<Rightarrow> int" where
  "js_shr a k = drop_bit k (ToInt32 a)"

definition js_shl :: "jsnum \<Rightarrow> nat \<Rightarrow> int" where
  "js_shl a k = signed_take_bit 31 (push_bit k (ToInt32 a))"

text \<open>Reading \<open>a[i]\<close> and the assignment \<open>a[i] = v\<close>, which extends the array.\<close>

definition elem :: "jsnum list \<Rightarrow> nat \<Rightarrow> jsnum" where
  "elem a i = (if i < length a then a ! i else NaN)"

definition store :: "jsnum list \<Rightarrow> nat \<Rightarrow> jsnum \<Rightarrow> jsnum list" where
  "store a i v =
     (if i < length a then a[i := v] else a @ replicate (i - length a) NaN @ [v])"

subsection \<open>Addresses\<close>

record address =
  addrElemArray :: "jsnum list"
  bigEndian_addr :: bool

text \<open>
  The constructor \<open>asm.address(byteArray, bigEndian)\<close>: 4 or 8 bytes, joined two by
  two into 16-bit elements, least significant element first.
\<close>

definition address :: "int list \<Rightarrow> bool \<Rightarrow> asm_error + address" where
  "address byteArray bigEndian' =
     (if \<not> (length byteArray = 4 \<or> length byteArray = 8) then Inl InvalidAddress
      else
        let bs = (if bigEndian' then rev byteArray else byteArray)
        in Inr \<lparr>addrElemArray =
                  map (\<lambda>i. Number (js_shl (Number (bs ! (2 * i + 1))) 8 + bs ! (2 * i)))
                    [0 ..< length bs div 2],
                bigEndian_addr = bigEndian'\<rparr>)"

definition width :: "address \<Rightarrow> int" where
  "width a = (if length (addrElemArray a) = 2 then 32 else 64)"

text \<open>
  The loop of \<open>addOffset\<close>. The assertion \<open>i < length\<close> ends it after at most
  \<open>length + 1\<close> iterations.
\<close>

function addOffset_loop ::
  "jsnum list \<Rightarrow> nat \<Rightarrow> jsnum list \<Rightarrow> int \<Rightarrow> int \<Rightarrow> nat \<Rightarrow> asm_error + jsnum list" where
  "addOffset_loop this len new carry opnd i =
     (if opnd > 0 \<or> carry \<noteq> 0 then
        (if \<not> i < len then Inl AddressOverflow
         else
           let res = js_plus (js_plus (elem this i) (Number (js_and (Number opnd) (Number 65535))))
                       (Number carry)
           in addOffset_loop this len (store new i (Number (js_and res (Number 65535))))
                (js_shr res 16) (js_shr (Number opnd) 16) (Suc i))
      else Inr new)"
  by pat_completeness auto
termination
  by (relation "measure (\<lambda>(this, len, new, carry, opnd, i). len - i)") auto

declare addOffset_loop.simps [simp del]

text \<open>
  The loop of \<open>subOffset\<close>. Nothing in it compares \<open>i\<close> with the length of the
  array, so the model counts its iterations down from \<open>fuel\<close>; \<open>None\<close> means that the
  loop has not ended within \<open>fuel\<close> iterations. The result is the array of \<open>newAddr\<close>
  with the last values of \<open>carry\<close> and \<open>opnd\<close>.
\<close>

fun subOffset_loop ::
  "nat \<Rightarrow> jsnum list \<Rightarrow> jsnum list \<Rightarrow> int \<Rightarrow> int \<Rightarrow> nat \<Rightarrow> (jsnum list \<times> int \<times> int) option" where
  "subOffset_loop 0 this new carry opnd i =
     (if opnd > 0 \<or> carry \<noteq> 0 then None else Some (new, carry, opnd))"
| "subOffset_loop (Suc fuel) this new carry opnd i =
     (if opnd > 0 \<or> carry \<noteq> 0 then
        (let res = js_plus (js_minus (elem this i) (Number (js_and (Number opnd) (Number 65535))))
                     (Number carry)
         in if js_ge0 res
            then subOffset_loop fuel this (store new i res) 0 (js_shr (Number opnd) 16) (Suc i)
            else subOffset_loop fuel this (store new i (js_plus res (Number 65536))) (- 1)
                   (js_shr (Number opnd) 16) (Suc i))
      else Some (new, carry, opnd))"

text \<open>
  \<open>addOffset\<close> and \<open>subOffset\<close> after their first test: the offset is not negative.
\<close>

definition addOffset_body :: "address \<Rightarrow> int \<Rightarrow> asm_error + address" where
  "addOffset_body this n =
     (case addOffset_loop (addrElemArray this) (length (addrElemArray this))
             (addrElemArray this) 0 n 0 of
        Inl err \<Rightarrow> Inl err
      | Inr new \<Rightarrow> Inr (this\<lparr>addrElemArray := new\<rparr>))"

definition subOffset_body :: "nat \<Rightarrow> address \<Rightarrow> int \<Rightarrow> (asm_error + address) option" where
  "subOffset_body fuel this n =
     (case subOffset_loop fuel (addrElemArray this) (addrElemArray this) 0 n 0 of
        None \<Rightarrow> None
      | Some (new, carry, opnd) \<Rightarrow>
          if opnd = 0 \<and> carry = 0 then Some (Inr (this\<lparr>addrElemArray := new\<rparr>))
          else Some (Inl AddressUnderflow))"

text \<open>
  \<open>addOffset(n)\<close> calls \<open>subOffset(-n)\<close> when \<open>n\<close> is negative, and \<open>subOffset(n)\<close>
  calls \<open>addOffset(-n)\<close>; the offset of the inner call is positive, so that call goes
  on after its first test.
\<close>

definition addOffset :: "nat \<Rightarrow> address \<Rightarrow> int \<Rightarrow> (asm_error + address) option" where
  "addOffset fuel this n =
     (if n < 0 then subOffset_body fuel this (- n) else Some (addOffset_body this n))"

definition subOffset :: "nat \<Rightarrow> address \<Rightarrow> int \<Rightarrow> (asm_error + address) option" where
  "subOffset fuel this n =
     (if n < 0 then Some (addOffset_body this (- n)) else subOffset_body fuel this n)"

text \<open>The loop of \<open>addAddress\<close>, over the indices below \<open>length\<close>.\<close>

function addAddress_loop ::
  "jsnum list \<Rightarrow> jsnum list \<Rightarrow> nat \<Rightarrow> jsnum list \<Rightarrow> int \<Rightarrow> nat \<Rightarrow> jsnum list" where
  "addAddress_loop this addr len new carry i =
     (if i < len then
        (let res = js_plus (js_plus (elem this i) (elem addr i)) (Number carry)
         in addAddress_loop this addr len (store new i (Number (js_and res (Number 65535))))
              (js_shr res 16) (Suc i))
      else new)"
  by pat_completeness auto
termination
  by (relation "measure (\<lambda>(this, addr, len, new, carry, i). len - i)") auto

declare addAddress_loop.simps [simp del]

definition addAddress :: "address \<Rightarrow> address \<Rightarrow> asm_error + address" where
  "addAddress this addr =
     (if width this \<noteq> width addr then Inl WidthMismatch
      else Inr (this\<lparr>addrElemArray :=
             addAddress_loop (addrElemArray this) (addrElemArray addr)
               (length (addrElemArray this)) (addrElemArray this) 0 0\<rparr>))"

text \<open>
  \<open>complement\<close>: every element is subtracted from \<open>0xFFFF\<close>, then the method returns
  \<open>newAddr.addOffset(1)\<close>.
\<close>

function complement_loop :: "jsnum list \<Rightarrow> nat \<Rightarrow> jsnum list \<Rightarrow> nat \<Rightarrow> jsnum list" where
  "complement_loop this len new i =
     (if i < len
      then complement_loop this len (store new i (js_minus (Number 65535) (elem this i))) (Suc i)
      else new)"
  by pat_completeness auto
termination
  by (relation "measure (\<lambda>(this, len, new, i). len - i)") auto

declare complement_loop.simps [simp del]

definition complement :: "address \<Rightarrow> asm_error + address" where
  "complement this =
     addOffset_body
       (this\<lparr>addrElemArray :=
          complement_loop (addrElemArray this) (length (addrElemArray this))
            (addrElemArray this) 0\<rparr>) 1"

text \<open>
  An address as the constructor builds it from bytes: 2 or 4 elements, each a number
  from 0 to 65535.
\<close>

fun is_limb :: "jsnum \<Rightarrow> bool" where
  "is_limb (Number a) = (0 \<le> a \<and> a \<le> 65535)"
| "is_limb NaN = False"

definition valid_address :: "address \<Rightarrow> bool" where
  "valid_address a =
     ((length (addrElemArray a) = 2 \<or> length (addrElemArray a) = 4) \<and>
      list_all is_limb (addrElemArray a))"

definition zero_address :: "address \<Rightarrow> bool" where
  "zero_address a = list_all (\<lambda>x. x = Number 0) (addrElemArray a)"

section \<open>Linking (asm.link)\<close>

text \<open>
  A required object of a machine code block, as \<open>assembleToMachineCodeBlock\<close> creates
  it: \<open>getOffset()\<close>, the bytes that \<open>linkValue()\<close> returns, and \<open>linkObj.width()\<close>.
\<close>

record required =
  getOffset :: int
  linkValue :: "int list"
  linkObj_width :: int

record machine_code_block =
  bytes :: "int list"
  requiredArray :: "required list"

text \<open>
  Modelled from the spec: \<open>writeToMemoryBlock(block, index, byteVal)\<close> is called by
  \<open>asm.link\<close> and defined outside the two source files. The byte accessors of a block
  are bounds-checked, and writing past the end of the block is fatal.
\<close>

definition writeToMemoryBlock :: "int list \<Rightarrow> int \<Rightarrow> int \<Rightarrow> asm_error + int list" where
  "writeToMemoryBlock block index byteVal =
     (if 0 \<le> index \<and> index < int (length block)
      then Inr (block[nat index := byteVal])
      else Inl OutOfBoundsWrite)"

text \<open>
  The inner loop of \<open>asm.link\<close>: byte \<open>i\<close> of the link value goes to \<open>offset + i\<close>.
  The first argument is \<open>offset + i\<close>, the third the bytes from \<open>i\<close> on.
\<close>

fun link_bytes :: "int \<Rightarrow> int list \<Rightarrow> int list \<Rightarrow> asm_error + int list" where
  "link_bytes index block [] = Inr block"
| "link_bytes index block (b # bs) =
     (case writeToMemoryBlock block index b of
        Inl err \<Rightarrow> Inl err
      | Inr block' \<Rightarrow> link_bytes (index + 1) block' bs)"

text \<open>
  The body of the outer loop for one required object. The assertion
  \<open>bytes.length !== undefined\<close> holds for every array.
\<close>

definition link_site :: "int list \<Rightarrow> required \<Rightarrow> asm_error + int list" where
  "link_site block r = link_bytes (getOffset r) block (linkValue r)"

fun link_sites :: "int list \<Rightarrow> required list \<Rightarrow> asm_error + int list" where
  "link_sites block [] = Inr block"
| "link_sites block (r # rs) =
     (case link_site block r of
        Inl err \<Rightarrow> Inl err
      | Inr block' \<Rightarrow> link_sites block' rs)"

definition link :: "machine_code_block \<Rightarrow> asm_error + machine_code_block" where
  "link mcb =
     (case link_sites (bytes mcb) (requiredArray mcb) of
        Inl err \<Rightarrow> Inl err
      | Inr block \<Rightarrow> Inr (mcb\<lparr>bytes := block\<rparr>))"

subsection \<open>Widths of items and the shape of the assembled stream\<close>

text \<open>
  The number of bytes an item stands for: 1 for a number, the field \<open>size\<close> for a
  deferred object, 0 for a label and for a listing.
\<close>

fun byte_width :: "deferred_heap \<Rightarrow> item \<Rightarrow> int" where
  "byte_width D (Num n) = 1"
| "byte_width D (DEF d) = size_d (D d)"
| "byte_width D (LBL l) = 0"
| "byte_width D (LST t) = 0"

definition widths :: "deferred_heap \<Rightarrow> item list \<Rightarrow> int" where
  "widths D xs = sum_list (map (byte_width D) xs)"

text \<open>
  The fixup list of an array of items, front first: the entries that the first loop of
  \<open>assemble\<close> pushes one after the other.
\<close>

fun fixups_of :: "item list \<Rightarrow> int \<Rightarrow> (int \<times> item) list" where
  "fixups_of [] span = []"
| "fixups_of (Num n # xs) span = fixups_of xs (span + 1)"
| "fixups_of (LBL l # xs) span = (span, LBL l) # fixups_of xs 0"
| "fixups_of (DEF d # xs) span = (span, DEF d) # fixups_of xs 0"
| "fixups_of (LST t # xs) span = fixups_of xs span"

text \<open>
  The stream that the description of \<open>assemble\<close> promises: numbers and listings are
  kept, labels are dropped, a deferred object is replaced by the bytes of its selected
  production procedure.
\<close>

fun expand :: "label_heap \<Rightarrow> deferred_heap \<Rightarrow> int \<Rightarrow> item list \<Rightarrow> item list" where
  "expand L D pos [] = []"
| "expand L D pos (Num n # xs) = Num n # expand L D (pos + 1) xs"
| "expand L D pos (LBL l # xs) = expand L D pos xs"
| "expand L D pos (DEF d # xs) =
     map (\<lambda>n. Num (n AND 255)) ((prods (D d) ! current (D d)) L pos)
       @ expand L D (pos + size_d (D d)) xs"
| "expand L D pos (LST t # xs) = LST t # expand L D pos xs"

text \<open>The labels and the deferred objects of an array of items.\<close>

fun labels_of :: "item list \<Rightarrow> label_ref list" where
  "labels_of [] = []"
| "labels_of (LBL l # xs) = l # labels_of xs"
| "labels_of (x # xs) = labels_of xs"

fun deferreds_of :: "item list \<Rightarrow> deferred_ref list" where
  "deferreds_of [] = []"
| "deferreds_of (DEF d # xs) = d # deferreds_of xs"
| "deferreds_of (x # xs) = deferreds_of xs"

text \<open>A byte is a number from 0 to 255.\<close>

fun is_byte :: "item \<Rightarrow> bool" where
  "is_byte (Num n) = (0 \<le> n \<and> n \<le> 255)"
| "is_byte x = False"

fun is_listing :: "item \<Rightarrow> bool" where
  "is_listing (LST t) = True"
| "is_listing x = False"

text \<open>
  Every deferred object of the stream stands, at its position, on an alternative whose
  check procedure returns the size stored in the object.
\<close>

fun accepted_at :: "label_heap \<Rightarrow> deferred_heap \<Rightarrow> int \<Rightarrow> item list \<Rightarrow> bool" where
  "accepted_at L D pos [] = True"
| "accepted_at L D pos (Num n # xs) = accepted_at L D (pos + 1) xs"
| "accepted_at L D pos (LBL l # xs) = accepted_at L D pos xs"
| "accepted_at L D pos (DEF d # xs) =
     (current (D d) < length (checks (D d)) \<and>
      (checks (D d) ! current (D d)) L pos = Some (size_d (D d)) \<and>
      accepted_at L D (pos + size_d (D d)) xs)"
| "accepted_at L D pos (LST t # xs) = accepted_at L D pos xs"


text \<open>
  The sizing loop over the first entries of a fixup list, stopped where it stands: the
  result is the position the loop has reached, the heap of deferred objects and
  \<open>hasChanged\<close>. \<open>deferred_pass\<close> is this walk over the whole list, without the
  position.
\<close>

fun deferred_walk ::
  "(int \<times> item) list \<Rightarrow> label_heap \<Rightarrow> int \<Rightarrow> deferred_heap \<Rightarrow> bool
     \<Rightarrow> asm_error + (int \<times> deferred_heap \<times> bool)" where
  "deferred_walk [] L pos D hasChanged = Inr (pos, D, hasChanged)"
| "deferred_walk (e # fl) L pos D hasChanged =
     (case size_entry e L pos D hasChanged of
        Inl err \<Rightarrow> Inl err
      | Inr (pos', D', hasChanged') \<Rightarrow> deferred_walk fl L pos' D' hasChanged')"

text \<open>
  The block after the bytes of the link value of a required object have been written
  at the offsets from \<open>getOffset()\<close> on.
\<close>

definition patch :: "int list \<Rightarrow> required \<Rightarrow> int list" where
  "patch block r =
     take (nat (getOffset r)) block @ linkValue r @
     drop (nat (getOffset r) + length (linkValue r)) block"

text \<open>
  The heaps at the start of iteration \<open>n\<close> of the loop \<open>while (hasChanged)\<close>, counted
  from 0, when the loop runs that far.
\<close>

fun iteration_state ::
  "nat \<Rightarrow> (int \<times> item) list \<Rightarrow> int \<Rightarrow> label_heap \<Rightarrow> deferred_heap
     \<Rightarrow> (label_heap \<times> deferred_heap) option" where
  "iteration_state 0 fl start L D = Some (L, D)"
| "iteration_state (Suc n) fl start L D =
     (case fix_point_body fl start L D of
        Inl err \<Rightarrow> None
      | Inr (L', D', hasChanged) \<Rightarrow>
          if hasChanged then iteration_state n fl start L' D' else None)"

subsection \<open>Well-formed deferred objects and the bound on the iterations\<close>

text \<open>
  A deferred object is well formed when each of its check procedures returns \<open>null\<close>
  or a size that is not negative, and the last one always returns a size.
\<close>

definition well_formed :: "deferred_heap \<Rightarrow> item list \<Rightarrow> bool" where
  "well_formed D xs =
     (\<forall>d \<in> set (deferreds_of xs).
        checks (D d) \<noteq> [] \<and>
        (\<forall>k < length (checks (D d)). \<forall>L pos s. (checks (D d) ! k) L pos = Some s \<longrightarrow> 0 \<le> s) \<and>
        (\<forall>L pos. last (checks (D d)) L pos \<noteq> None))"

text \<open>The largest number of alternatives of a deferred object of the stream.\<close>

fun max_alternatives :: "deferred_heap \<Rightarrow> item list \<Rightarrow> nat" where
  "max_alternatives D [] = 0"
| "max_alternatives D (DEF d # xs) = max (length (checks (D d))) (max_alternatives D xs)"
| "max_alternatives D (x # xs) = max_alternatives D xs"

text \<open>
  \<open>D * (A - 1) + L + 1\<close>, for the \<open>D\<close> deferred objects, the \<open>L\<close> labels and the
  largest number \<open>A\<close> of alternatives.
\<close>

definition pass_bound :: "deferred_heap \<Rightarrow> item list \<Rightarrow> nat" where
  "pass_bound D xs =
     length (deferreds_of xs) * (max_alternatives D xs - 1) + length (labels_of xs) + 1"

text \<open>
  Every alternative has one size: whenever one of the check procedures returns a
  size, it is the same size, at every position and for all label positions.
\<close>

definition fixed_checks :: "check list \<Rightarrow> bool" where
  "fixed_checks cs =
     (\<forall>k < length cs. \<forall>L pos L' pos' s s'.
        (cs ! k) L pos = Some s \<and> (cs ! k) L' pos' = Some s' \<longrightarrow> s = s')"

definition fixed_sizes :: "deferred_heap \<Rightarrow> item list \<Rightarrow> bool" where
  "fixed_sizes D xs = (\<forall>d \<in> set (deferreds_of xs). fixed_checks (checks (D d)))"

text \<open>
  A deferred object is settled when \<open>current\<close> is an index of \<open>checks\<close> and \<open>size\<close>
  is the size of that alternative. Its remaining alternatives are those after
  \<open>current\<close>.
\<close>

definition settled :: "deferred_heap \<Rightarrow> deferred_ref \<Rightarrow> bool" where
  "settled D d =
     (current (D d) < length (checks (D d)) \<and>
      (\<forall>L pos s. (checks (D d) ! current (D d)) L pos = Some s \<longrightarrow> s = size_d (D d)))"

definition remaining :: "deferred_heap \<Rightarrow> deferred_ref \<Rightarrow> nat" where
  "remaining D d = length (checks (D d)) - 1 - current (D d)"

text \<open>
  The deferred objects of the stream as the constructor \<open>deferred\<close> leaves them:
  \<open>current\<close> and \<open>size\<close> are 0 and there are as many production procedures as check
  procedures.
\<close>

definition constructed :: "deferred_heap \<Rightarrow> item list \<Rightarrow> bool" where
  "constructed D xs =
     (\<forall>d \<in> set (deferreds_of xs).
        current (D d) = 0 \<and> size_d (D d) = 0 \<and> length (prods (D d)) = length (checks (D d)))"

text \<open>
  A deferred object is ready when \<open>current\<close> is an index of both arrays and the last
  check procedure always returns a size.
\<close>

definition ready :: "deferred_heap \<Rightarrow> deferred_ref \<Rightarrow> bool" where
  "ready D d =
     (current (D d) < length (checks (D d)) \<and>
      length (prods (D d)) = length (checks (D d)) \<and>
      (\<forall>L pos. last (checks (D d)) L pos \<noteq> None))"

subsection \<open>Example code blocks\<close>

definition no_labels :: label_heap where
  "no_labels = (\<lambda>l. None)"

text \<open>A deferred object with two forms: the first is never valid, the second has 5 bytes.\<close>

definition two_forms :: deferred where
  "two_forms = \<lparr>checks = [\<lambda>L pos. None, \<lambda>L pos. Some 5],
                 prods = [\<lambda>L pos. [], \<lambda>L pos. [1, 2, 3, 4, 5]],
                 current = 0, size_d = 0\<rparr>"

definition empty_block :: CodeBlock where
  "empty_block = \<lparr>startPos = 0, bigEndian = False, useListing = False, code = []\<rparr>"

text \<open>
  A code block at position 100: a byte, the deferred object 0, the label 7, a byte.
\<close>

definition small_block :: CodeBlock where
  "small_block = \<lparr>startPos = 100, bigEndian = False, useListing = False,
                   code = [Num 144, DEF 0, LBL 7, Num 195]\<rparr>"

definition small_block_assembled :: CodeBlock where
  "small_block_assembled = \<lparr>startPos = 100, bigEndian = False, useListing = False,
     code = [Num 144, Num 1, Num 2, Num 3, Num 4, Num 5, Num 195]\<rparr>"

text \<open>The 32-bit addresses \<open>0xFFFFFFFC\<close>, 0 and 2.\<close>

definition addr_FFFFFFFC :: address where
  "addr_FFFFFFFC = \<lparr>addrElemArray = [Number 65532, Number 65535], bigEndian_addr = False\<rparr>"

definition addr_0 :: address where
  "addr_0 = \<lparr>addrElemArray = [Number 0, Number 0], bigEndian_addr = False\<rparr>"

definition addr_2 :: address where
  "addr_2 = \<lparr>addrElemArray = [Number 2, Number 0], bigEndian_addr = False\<rparr>"

text \<open>
  A block of four bytes with one required object at offset 0, whose link object is
  32 bits wide and whose link value has two bytes.
\<close>

definition short_value_block :: machine_code_block where
  "short_value_block =
     \<lparr>bytes = [0, 0, 0, 0],
      requiredArray = [\<lparr>getOffset = 0, linkValue = [1, 2], linkObj_width = 32\<rparr>]\<rparr>"

text \<open>
  A deferred object with one alternative, followed by the label 0. The check procedure
  returns 1 when the label is at the position of the object, and 0 otherwise.
\<close>

definition at_label :: deferred where
  "at_label =
     \<lparr>checks = [\<lambda>L pos. case L 0 of None \<Rightarrow> Some 0 | Some t \<Rightarrow> if t = pos then Some 1 else Some 0],
      prods = [\<lambda>L pos. case L 0 of None \<Rightarrow> [] | Some t \<Rightarrow> if t = pos then [144] else []],
      current = 0, size_d = 0\<rparr>"

definition at_label_block :: CodeBlock where
  "at_label_block = \<lparr>startPos = 0, bigEndian = False, useListing = False,
                      code = [DEF 0, LBL 0]\<rparr>"

text \<open>A code block that holds one deferred object, of two bytes at every position.\<close>

definition two_bytes :: deferred where
  "two_bytes = \<lparr>checks = [\<lambda>L pos. Some 2], prods = [\<lambda>L pos. [0, 0]],
                 current = 0, size_d = 0\<rparr>"

definition two_bytes_block :: CodeBlock where
  "two_bytes_block = \<lparr>startPos = 0, bigEndian = False, useListing = False, code = [DEF 0]\<rparr>"

text \<open>
  A block of four bytes with two required objects: two bytes at offset 0 for a link
  object of 32 bits, then three bytes at offset 1 for a link object of 16 bits.
\<close>

definition two_sites_block :: machine_code_block where
  "two_sites_block =
     \<lparr>bytes = [0, 0, 0, 0],
      requiredArray = [\<lparr>getOffset = 0, linkValue = [1, 2], linkObj_width = 32\<rparr>,
                       \<lparr>getOffset = 1, linkValue = [3, 4, 5], linkObj_width = 16\<rparr>]\<rparr>"

section \<open>What the emitting methods build\<close>

text \<open>
  The streams of the theorems below are arbitrary lists of items. The methods of a
  code block build streams whose numbers are bytes, in which a label is placed at most
  once, and whose deferred objects start at the first alternative with size 0.
\<close>

lemma gen8_code: "code (gen8 cb n) = code cb @ [Num (n AND 255)]"
  by (simp add: gen8_def extend_cb_def)

lemma gen8_is_byte: "is_byte (Num (n AND 255))"
  by simp

lemma genLabel_once:
  "genLabel cb L l = Inr (cb', L') \<Longrightarrow> genLabel cb'' L' l = Inl LabelMultiplyDefined"
  by (auto simp: genLabel_def split: if_splits)

lemma genLabel_code:
  "genLabel cb L l = Inr (cb', L') \<Longrightarrow> code cb' = code cb @ [LBL l] \<and> L l = None"
  by (auto simp: genLabel_def extend_cb_def split: if_splits)

lemma deferred_fresh:
  "deferred cs ps = Inr d \<Longrightarrow>
     checks d = cs \<and> prods d = ps \<and> current d = 0 \<and> size_d d = 0 \<and>
     cs \<noteq> [] \<and> length ps = length cs"
  by (auto simp: deferred_def split: if_splits)

section \<open>Properties of assemble\<close>

subsection \<open>The sizing loop\<close>


lemma try_checks_mono: "cur \<le> fst (try_checks cs L pos cur)"
proof (induction cs L pos cur rule: try_checks.induct)
  case (1 cs L pos cur)
  show ?case
  proof (cases "cur < length cs")
    case True
    then show ?thesis using 1
      by (cases "(cs ! cur) L pos") (auto simp: try_checks.simps [of cs L pos cur])
  next
    case False
    then show ?thesis by (simp add: try_checks.simps [of cs L pos cur])
  qed
qed

lemma try_checks_rejected:
  "cur \<le> k \<Longrightarrow> k < fst (try_checks cs L pos cur) \<Longrightarrow> (cs ! k) L pos = None"
proof (induction cs L pos cur rule: try_checks.induct)
  case (1 cs L pos cur)
  show ?case
  proof (cases "cur < length cs")
    case True
    show ?thesis
    proof (cases "(cs ! cur) L pos")
      case None
      with True 1 show ?thesis
        by (cases "k = cur") (auto simp: try_checks.simps [of cs L pos cur])
    next
      case (Some s)
      with True 1 show ?thesis by (auto simp: try_checks.simps [of cs L pos cur])
    qed
  next
    case False
    with 1 show ?thesis by (simp add: try_checks.simps [of cs L pos cur])
  qed
qed

lemma try_checks_accepted:
  "snd (try_checks cs L pos cur) = Some s \<Longrightarrow>
     fst (try_checks cs L pos cur) < length cs \<and>
     (cs ! fst (try_checks cs L pos cur)) L pos = Some s"
proof (induction cs L pos cur rule: try_checks.induct)
  case (1 cs L pos cur)
  show ?case
  proof (cases "cur < length cs")
    case True
    show ?thesis
    proof (cases "(cs ! cur) L pos")
      case None
      with True 1 show ?thesis by (auto simp: try_checks.simps [of cs L pos cur])
    next
      case (Some s)
      with True 1 show ?thesis by (auto simp: try_checks.simps [of cs L pos cur])
    qed
  next
    case False
    with 1 show ?thesis by (simp add: try_checks.simps [of cs L pos cur])
  qed
qed


lemma size_entry_DEF:
  assumes "size_entry (span, DEF d) L pos D ch = Inr (pos', D', ch')"
  obtains newSize where
    "snd (try_checks (checks (D d)) L (pos + span) (current (D d))) = Some newSize"
    "D' = D(d := (D d)\<lparr>current := fst (try_checks (checks (D d)) L (pos + span) (current (D d))),
            size_d := newSize\<rparr>)"
    "ch' = (ch \<or> size_d (D d) \<noteq> newSize)"
    "pos' = (if size_d (D d) \<noteq> newSize then pos + span + size_d (D d) + size_d (D d)
             else pos + span + size_d (D d))"
  using assms
  by (auto simp: size_entry_def Let_def split: option.splits if_splits)

text \<open>
  When the size changes, the position moves on by twice the old size: once in the
  branch that stores the new size, once after it.
\<close>

lemma size_entry_changed:
  assumes "size_entry (span, DEF d) L pos D ch = Inr (pos', D', ch')"
    and "size_d (D d) \<noteq> size_d (D' d)"
  shows "pos' = pos + span + size_d (D d) + size_d (D d) \<and> ch'"
  using assms(1)
proof (rule size_entry_DEF)
  fix newSize
  assume "D' = D(d := (D d)\<lparr>current := fst (try_checks (checks (D d)) L (pos + span) (current (D d))),
            size_d := newSize\<rparr>)"
    and "ch' = (ch \<or> size_d (D d) \<noteq> newSize)"
    and "pos' = (if size_d (D d) \<noteq> newSize then pos + span + size_d (D d) + size_d (D d)
             else pos + span + size_d (D d))"
  with assms(2) show ?thesis by simp
qed

lemma size_entry_other:
  assumes "\<And>d. x \<noteq> DEF d"
  shows "size_entry (span, x) L pos D ch = Inr (pos + span, D, ch)"
  using assms by (cases x) (auto simp: size_entry_def)

lemma size_entry_current:
  assumes "size_entry e L pos D ch = Inr (pos', D', ch')"
  shows "current (D d) \<le> current (D' d) \<and> checks (D' d) = checks (D d) \<and>
     prods (D' d) = prods (D d) \<and>
     (\<forall>k. current (D d) \<le> k \<and> k < current (D' d) \<longrightarrow> (\<exists>p. (checks (D d) ! k) L p = None))"
proof (cases "\<exists>d'. snd e = DEF d'")
  case False
  then have "\<And>d. snd e \<noteq> DEF d" by blast
  from size_entry_other [OF this, of "fst e" L pos D ch] assms
  have "D' = D" by simp
  then show ?thesis by auto
next
  case True
  then obtain d' where e: "e = (fst e, DEF d')" by (cases e) auto
  from assms e have "size_entry (fst e, DEF d') L pos D ch = Inr (pos', D', ch')" by simp
  then obtain newSize where
    D': "D' = D(d' := (D d')\<lparr>current := fst (try_checks (checks (D d')) L (pos + fst e) (current (D d'))),
            size_d := newSize\<rparr>)"
    by (rule size_entry_DEF)
  show ?thesis
  proof (cases "d = d'")
    case False
    with D' show ?thesis by auto
  next
    case True
    with D' show ?thesis
      using try_checks_mono [of "current (D d)" "checks (D d)" L "pos + fst e"]
        try_checks_rejected [of "current (D d)" _ "checks (D d)" L "pos + fst e"]
      by auto
  qed
qed

lemma deferred_pass_current:
  "deferred_pass fl L pos D ch = Inr (D', ch') \<Longrightarrow>
     current (D d) \<le> current (D' d) \<and> checks (D' d) = checks (D d) \<and>
     prods (D' d) = prods (D d) \<and>
     (\<forall>k. current (D d) \<le> k \<and> k < current (D' d) \<longrightarrow> (\<exists>p. (checks (D d) ! k) L p = None))"
proof (induction fl arbitrary: pos D ch)
  case Nil
  then show ?case by auto
next
  case (Cons e fl)
  from Cons.prems obtain pos1 D1 ch1 where
    e: "size_entry e L pos D ch = Inr (pos1, D1, ch1)" and
    r: "deferred_pass fl L pos1 D1 ch1 = Inr (D', ch')"
    by (auto split: sum.splits)
  note h = size_entry_current [OF e, of d]
  note ih = Cons.IH [OF r]
  show ?case
  proof (intro conjI allI impI)
    show "current (D d) \<le> current (D' d)" using h ih by simp
    show "checks (D' d) = checks (D d)" using h ih by simp
    show "prods (D' d) = prods (D d)" using h ih by simp
  next
    fix k assume k: "current (D d) \<le> k \<and> k < current (D' d)"
    show "\<exists>p. (checks (D d) ! k) L p = None"
    proof (cases "k < current (D1 d)")
      case True
      with k h show ?thesis by blast
    next
      case False
      with k ih h show ?thesis by auto
    qed
  qed
qed

lemma fix_point_body_current:
  assumes "fix_point_body fl start L D = Inr (L', D', ch)"
  shows "current (D d) \<le> current (D' d) \<and> checks (D' d) = checks (D d) \<and>
     prods (D' d) = prods (D d) \<and>
     (\<forall>k. current (D d) \<le> k \<and> k < current (D' d) \<longrightarrow> (\<exists>p. (checks (D d) ! k) L p = None))"
proof -
  from assms obtain c where "deferred_pass fl L start D False = Inr (D', c)"
    by (auto simp: fix_point_body_def split: sum.splits)
  then show ?thesis by (rule deferred_pass_current)
qed

lemma fix_point_current:
  "fix_point fuel fl start L D = Some (Inr (L', D')) \<Longrightarrow>
     current (D d) \<le> current (D' d) \<and> checks (D' d) = checks (D d) \<and>
     prods (D' d) = prods (D d) \<and>
     (\<forall>k. current (D d) \<le> k \<and> k < current (D' d) \<longrightarrow> (\<exists>M p. (checks (D d) ! k) M p = None))"
proof (induction fuel arbitrary: L D)
  case 0
  then show ?case by simp
next
  case (Suc fuel)
  from Suc.prems obtain L1 D1 c where
    b: "fix_point_body fl start L D = Inr (L1, D1, c)"
    by (auto split: sum.splits)
  note h = fix_point_body_current [OF b, of d]
  show ?case
  proof (cases c)
    case False
    with Suc.prems b have "D' = D1" by simp
    with h show ?thesis by blast
  next
    case True
    with Suc.prems b have r: "fix_point fuel fl start L1 D1 = Some (Inr (L', D'))" by simp
    note ih = Suc.IH [OF r]
    show ?thesis
    proof (intro conjI allI impI)
      show "current (D d) \<le> current (D' d)" using h ih by simp
      show "checks (D' d) = checks (D d)" using h ih by simp
      show "prods (D' d) = prods (D d)" using h ih by simp
    next
      fix k assume k: "current (D d) \<le> k \<and> k < current (D' d)"
      show "\<exists>M p. (checks (D d) ! k) M p = None"
      proof (cases "k < current (D1 d)")
        case True
        with k h show ?thesis by blast
      next
        case False
        with k ih h show ?thesis by auto
      qed
    qed
  qed
qed

subsection \<open>The fixup list, the label loop and the last loop\<close>


lemma create_fixups_fst:
  "fst (create_fixups xs span pos L fl) = fl @ fixups_of xs span"
proof (induction xs arbitrary: span pos L fl)
  case Nil
  then show ?case by simp
next
  case (Cons x xs)
  then show ?case by (cases x) simp_all
qed

lemma label_pass_flag:
  "label_pass fl D pos L True = Inr (L', ch') \<Longrightarrow> ch'"
proof (induction fl D pos L "True" arbitrary: L' ch' rule: label_pass.induct)
  case (1 D pos L)
  then show ?case by simp
next
  case (2 span l fl D pos L)
  then show ?case by (auto split: option.splits if_splits)
next
  case (3 span d fl D pos L)
  then show ?case by simp
next
  case (4 span n fl D pos L)
  then show ?case by simp
next
  case (5 span t fl D pos L)
  then show ?case by simp
qed

lemma label_pass_stable:
  "label_pass fl D pos L ch = Inr (L', False) \<Longrightarrow> L' = L \<and> \<not> ch"
proof (induction fl D pos L ch rule: label_pass.induct)
  case (1 D pos L hasChanged)
  then show ?case by simp
next
  case (2 span l fl D pos L hasChanged)
  then show ?case
    by (auto split: option.splits if_splits dest: label_pass_flag)
next
  case (3 span d fl D pos L hasChanged)
  then show ?case by simp
next
  case (4 span n fl D pos L hasChanged)
  then show ?case by simp
next
  case (5 span t fl D pos L hasChanged)
  then show ?case by simp
qed

lemma deferred_pass_flag:
  "deferred_pass fl L pos D True = Inr (D', ch') \<Longrightarrow> ch'"
proof (induction fl arbitrary: pos D)
  case Nil
  then show ?case by simp
next
  case (Cons e fl)
  from Cons.prems obtain pos1 D1 ch1 where
    e: "size_entry e L pos D True = Inr (pos1, D1, ch1)" and
    r: "deferred_pass fl L pos1 D1 ch1 = Inr (D', ch')"
    by (auto split: sum.splits)
  from e have ch1
    by (auto simp: size_entry_def Let_def split: item.splits option.splits if_splits)
  with r Cons.IH show ?case by simp
qed

text \<open>The state in which the loop ends is stable under both passes.\<close>

lemma fix_point_body_stable:
  assumes "fix_point_body fl start L D = Inr (L', D', False)"
  shows "L' = L" and "deferred_pass fl L start D False = Inr (D', False)"
    and "label_pass fl D' start L False = Inr (L, False)"
proof -
  from assms obtain c where
    d: "deferred_pass fl L start D False = Inr (D', c)" and
    l: "label_pass fl D' start L c = Inr (L', False)"
    by (auto simp: fix_point_body_def split: sum.splits)
  from label_pass_stable [OF l] have "L' = L" "\<not> c" by simp_all
  with d l show "L' = L" "deferred_pass fl L start D False = Inr (D', False)"
    "label_pass fl D' start L False = Inr (L, False)" by simp_all
qed

lemma fix_point_last:
  "fix_point fuel fl start L D = Some (Inr (L', D')) \<Longrightarrow>
     \<exists>D1. fix_point_body fl start L' D1 = Inr (L', D', False)"
proof (induction fuel arbitrary: L D)
  case 0
  then show ?case by simp
next
  case (Suc fuel)
  from Suc.prems obtain L1 D1 c where
    b: "fix_point_body fl start L D = Inr (L1, D1, c)"
    by (auto split: sum.splits)
  show ?case
  proof (cases c)
    case True
    with Suc.prems b have "fix_point fuel fl start L1 D1 = Some (Inr (L', D'))" by simp
    then show ?thesis by (rule Suc.IH)
  next
    case False
    with Suc.prems b have eq: "L1 = L'" "D1 = D'" by simp_all
    from b False have b': "fix_point_body fl start L D = Inr (L1, D1, False)" by simp
    from fix_point_body_stable(1) [OF b'] eq b' show ?thesis by auto
  qed
qed

lemma widths_simps [simp]:
  "widths D [] = 0"
  "widths D (x # xs) = byte_width D x + widths D xs"
  by (simp_all add: widths_def)

lemma label_pass_positions:
  "label_pass (fixups_of xs span) D pos L False = Inr (L, False) \<Longrightarrow>
     i < length xs \<Longrightarrow> xs ! i = LBL l \<Longrightarrow>
     L l = Some (pos + span + widths D (take i xs))"
proof (induction xs arbitrary: span pos i)
  case Nil
  then show ?case by simp
next
  case (Cons x xs)
  show ?case
  proof (cases x)
    case (Num n)
    with Cons.prems obtain j where j: "i = Suc j" by (cases i) auto
    from Cons.prems Num j
    have "L l = Some (pos + (span + 1) + widths D (take j xs))"
      by (intro Cons.IH) auto
    with Num j show ?thesis by simp
  next
    case (LBL l0)
    from Cons.prems(1) LBL have
      p: "L l0 = Some (pos + span)" and
      r: "label_pass (fixups_of xs 0) D (pos + span) L False = Inr (L, False)"
      by (auto split: option.splits if_splits dest: label_pass_flag)
    show ?thesis
    proof (cases i)
      case 0
      with Cons.prems LBL p show ?thesis by simp
    next
      case (Suc j)
      with Cons.prems LBL r
      have "L l = Some (pos + span + 0 + widths D (take j xs))"
        by (intro Cons.IH) auto
      with LBL Suc show ?thesis by simp
    qed
  next
    case (DEF d)
    with Cons.prems obtain j where j: "i = Suc j" by (cases i) auto
    from Cons.prems DEF j
    have "L l = Some (pos + span + size_d (D d) + 0 + widths D (take j xs))"
      by (intro Cons.IH) auto
    with DEF j show ?thesis by simp
  next
    case (LST t)
    with Cons.prems obtain j where j: "i = Suc j" by (cases i) auto
    from Cons.prems LST j
    have "L l = Some (pos + span + widths D (take j xs))"
      by (intro Cons.IH) auto
    with LST j show ?thesis by simp
  qed
qed

lemma generate_consistent:
  "label_pass (fixups_of xs span) D pos L False = Inr (L, False) \<Longrightarrow>
     generate xs L D (pos + span) acc \<noteq> Inl InconsistencyDetected"
proof (induction xs arbitrary: span pos acc)
  case Nil
  then show ?case by simp
next
  case (Cons x xs)
  show ?case
  proof (cases x)
    case (Num n)
    with Cons.prems Cons.IH [of "span + 1" pos "acc @ [Num n]"]
    show ?thesis by (simp add: add.assoc)
  next
    case (LBL l0)
    from Cons.prems(1) LBL have
      p: "L l0 = Some (pos + span)" and
      r: "label_pass (fixups_of xs 0) D (pos + span) L False = Inr (L, False)"
      by (auto split: option.splits if_splits dest: label_pass_flag)
    from Cons.IH [OF r, of acc] p LBL show ?thesis by simp
  next
    case (DEF d)
    with Cons.prems Cons.IH [of 0 "pos + span + size_d (D d)"]
    show ?thesis by simp
  next
    case (LST t)
    with Cons.prems Cons.IH [of span pos "acc @ [LST t]"]
    show ?thesis by simp
  qed
qed


lemma generate_expand:
  "generate xs L D pos acc = Inr (newCode, pos') \<Longrightarrow> newCode = acc @ expand L D pos xs"
proof (induction xs arbitrary: pos acc)
  case Nil
  then show ?case by simp
next
  case (Cons x xs)
  show ?case
  proof (cases x)
    case (Num n)
    with Cons.prems Cons.IH [of "pos + 1" "acc @ [Num n]"] show ?thesis by simp
  next
    case (LBL l)
    with Cons.prems Cons.IH [of pos acc] show ?thesis
      by (simp split: option.splits if_splits)
  next
    case (DEF d)
    with Cons.prems have "generate xs L D (pos + size_d (D d))
        (acc @ map (\<lambda>n. Num (n AND 255)) ((prods (D d) ! current (D d)) L pos)) =
        Inr (newCode, pos')"
      by (simp split: if_splits)
    from Cons.IH [OF this] DEF show ?thesis by simp
  next
    case (LST t)
    with Cons.prems Cons.IH [of pos "acc @ [LST t]"] show ?thesis by simp
  qed
qed

text \<open>What a successful run of assemble is made of.\<close>

lemma assemble_Some:
  assumes "assemble fuel cb L D = Some r"
  obtains err where "r = Inl err" "fix_point fuel (fixups_of (code cb) 0) (startPos cb)
        (snd (create_fixups (code cb) 0 (startPos cb) L [])) D = Some (Inl err)"
  | L' D' err where "r = Inl err" "fix_point fuel (fixups_of (code cb) 0) (startPos cb)
        (snd (create_fixups (code cb) 0 (startPos cb) L [])) D = Some (Inr (L', D'))"
      "generate (code cb) L' D' (startPos cb) [] = Inl err"
  | L' D' newCode pos where "r = Inr (pos, cb\<lparr>code := newCode\<rparr>, L', D')"
      "fix_point fuel (fixups_of (code cb) 0) (startPos cb)
        (snd (create_fixups (code cb) 0 (startPos cb) L [])) D = Some (Inr (L', D'))"
      "generate (code cb) L' D' (startPos cb) [] = Inr (newCode, pos)"
proof -
  define L0 where "L0 = snd (create_fixups (code cb) 0 (startPos cb) L [])"
  have f: "create_fixups (code cb) 0 (startPos cb) L [] = (fixups_of (code cb) 0, L0)"
    using create_fixups_fst [of "code cb" 0 "startPos cb" L "[]"]
    by (cases "create_fixups (code cb) 0 (startPos cb) L []") (simp add: L0_def)
  from assms that [folded L0_def] show ?thesis
    unfolding assemble_def Let_def f
    by (auto split: option.splits sum.splits)
qed

subsection \<open>The position after a deferred object in the sizing loop\<close>

text \<open>
  A fresh deferred object (size 0) whose accepted alternative has 5 bytes: the sizing
  loop stores the size 5 and leaves the position where it was, 5 bytes short of the
  updated size.
\<close>

theorem size_entry_advance_counterexample:
  "map_sum id (\<lambda>(pos', D', ch'). (pos', size_d (D' 0), ch'))
     (size_entry (0, DEF 0) no_labels 0 (\<lambda>r. two_forms) False) = Inr (0, 5, True)"
  by (simp add: size_entry_def try_checks.simps two_forms_def Let_def)

text \<open>
  Claim C5, amended. After the accepted alternative has returned \<open>newSize\<close>, the field
  \<open>size\<close> of the deferred object is \<open>newSize\<close>; the position is advanced according to
  the size the object had before, so it advances past the object by exactly \<open>newSize\<close>,
  once, whenever \<open>newSize\<close> is equal to that previous size.
\<close>

theorem size_entry_advance:
  "size_entry (span, DEF d) L pos D ch = Inr (pos', D', ch') \<Longrightarrow>
     snd (try_checks (checks (D d)) L (pos + span) (current (D d))) = Some (size_d (D' d)) \<and>
     (size_d (D d) = size_d (D' d) \<longrightarrow> pos' = pos + span + size_d (D' d))"
  by (erule size_entry_DEF) auto

theorem size_entry_advance_witness:
  "size_entry (3, DEF 0) no_labels 10 (\<lambda>r. two_forms\<lparr>current := Suc 0, size_d := 5\<rparr>) False =
     Inr (18, (\<lambda>r. two_forms\<lparr>current := Suc 0, size_d := 5\<rparr>)(0 := two_forms\<lparr>current := Suc 0, size_d := 5\<rparr>), False) \<and>
   snd (try_checks (checks two_forms) no_labels 13 (Suc 0)) = Some 5"
proof -
  have e: "size_entry (3, DEF 0) no_labels 10 (\<lambda>r. two_forms\<lparr>current := Suc 0, size_d := 5\<rparr>) False =
     Inr (18, (\<lambda>r. two_forms\<lparr>current := Suc 0, size_d := 5\<rparr>)(0 := two_forms\<lparr>current := Suc 0, size_d := 5\<rparr>), False)"
    by (simp add: size_entry_def try_checks.simps two_forms_def Let_def)
  from size_entry_advance [OF e] e show ?thesis by simp
qed

subsection \<open>origin\<close>

text \<open>
  Claim C6. \<open>origin(8, 0)\<close> on an empty code block at position 0 should append a
  deferred object that pads with 8 fill bytes. The array \<open>code\<close> stays empty and
  \<open>assemble\<close> returns 0 with no byte produced.
\<close>

theorem origin_adds_nothing:
  "code (origin empty_block 8 0) = [] \<and>
   map_option (map_sum id (\<lambda>(pos, cb, L', D'). (pos, code cb)))
     (assemble 1 (origin empty_block 8 0) L D) = Some (Inr (0, []))"
  by (simp add: origin_def empty_block_def assemble_def fix_point_body_def)

subsection \<open>Label positions after assemble\<close>


lemma deferred_pass_error:
  "deferred_pass fl L pos D ch = Inl err \<Longrightarrow> err = NoValidCheck"
proof (induction fl arbitrary: pos D ch)
  case Nil
  then show ?case by simp
next
  case (Cons e fl)
  show ?case
  proof (cases "size_entry e L pos D ch")
    case (Inl err')
    with Cons.prems have "err' = err" by simp
    with Inl show ?thesis
      by (auto simp: size_entry_def Let_def split: item.splits option.splits if_splits)
  next
    case (Inr t)
    with Cons.prems Cons.IH show ?thesis by (cases t) auto
  qed
qed

lemma label_pass_error:
  "label_pass fl D pos L ch = Inl err \<Longrightarrow> err = UndefinedLabel"
  by (induction fl D pos L ch rule: label_pass.induct)
     (auto split: option.splits if_splits)

lemma fix_point_error:
  "fix_point fuel fl start L D = Some (Inl err) \<Longrightarrow> err = NoValidCheck \<or> err = UndefinedLabel"
proof (induction fuel arbitrary: L D)
  case 0
  then show ?case by simp
next
  case (Suc fuel)
  show ?case
  proof (cases "fix_point_body fl start L D")
    case (Inl err')
    with Suc.prems have "err' = err" by simp
    with Inl show ?thesis
      by (auto simp: fix_point_body_def split: sum.splits
          dest: deferred_pass_error label_pass_error)
  next
    case (Inr t)
    with Suc.prems Suc.IH show ?thesis
      by (cases t) (auto split: if_splits)
  qed
qed

lemma small_block_body1:
  "fix_point_body [(1, DEF 0), (0, LBL 7)] 100 (no_labels(7 \<mapsto> 101)) (\<lambda>r. two_forms) =
     Inr (no_labels(7 \<mapsto> 106), (\<lambda>r. two_forms)(0 := two_forms\<lparr>current := Suc 0, size_d := 5\<rparr>), True)"
  by (simp add: fix_point_body_def size_entry_def try_checks.simps two_forms_def Let_def)

lemma small_block_body2:
  "fix_point_body [(1, DEF 0), (0, LBL 7)] 100 (no_labels(7 \<mapsto> 106))
       ((\<lambda>r. two_forms)(0 := two_forms\<lparr>current := Suc 0, size_d := 5\<rparr>)) =
     Inr (no_labels(7 \<mapsto> 106), (\<lambda>r. two_forms)(0 := two_forms\<lparr>current := Suc 0, size_d := 5\<rparr>), False)"
  by (simp add: fix_point_body_def size_entry_def try_checks.simps two_forms_def Let_def)

lemma small_block_assemble:
  "assemble 2 small_block no_labels (\<lambda>r. two_forms) =
     Some (Inr (107, small_block_assembled, no_labels(7 \<mapsto> 106),
                (\<lambda>r. two_forms)(0 := two_forms\<lparr>current := Suc 0, size_d := 5\<rparr>)))"
  by (simp add: assemble_def small_block_def small_block_assembled_def numeral_2_eq_2
      small_block_body1 small_block_body2)
     (simp add: two_forms_def)

text \<open>
  Claim C1. Whenever \<open>assemble\<close> returns, it has not raised "inconsistency detected":
  the last loop finds every label at the position it recomputes. When \<open>assemble\<close>
  succeeds, every label of the stream has the position \<open>startPos\<close> plus the widths of
  the items before it, where a number counts 1, a listing 0 and a deferred object its
  final size.
\<close>

theorem label_positions:
  "assemble fuel cb L D = Some r \<Longrightarrow>
     r \<noteq> Inl InconsistencyDetected \<and>
     (\<forall>pos cb' L' D' i l.
        r = Inr (pos, cb', L', D') \<and> i < length (code cb) \<and> code cb ! i = LBL l \<longrightarrow>
        L' l = Some (startPos cb + widths D' (take i (code cb))))"
proof (erule assemble_Some)
  fix err
  assume "r = Inl err" and "fix_point fuel (fixups_of (code cb) 0) (startPos cb)
        (snd (create_fixups (code cb) 0 (startPos cb) L [])) D = Some (Inl err)"
  then show ?thesis using fix_point_error by fastforce
next
  fix L' D' err
  assume r: "r = Inl err"
    and f: "fix_point fuel (fixups_of (code cb) 0) (startPos cb)
        (snd (create_fixups (code cb) 0 (startPos cb) L [])) D = Some (Inr (L', D'))"
    and g: "generate (code cb) L' D' (startPos cb) [] = Inl err"
  from fix_point_last [OF f] obtain D1 where
    "fix_point_body (fixups_of (code cb) 0) (startPos cb) L' D1 = Inr (L', D', False)" ..
  then have "label_pass (fixups_of (code cb) 0) D' (startPos cb) L' False = Inr (L', False)"
    by (rule fix_point_body_stable)
  from generate_consistent [OF this, of "[]"] g r show ?thesis by simp
next
  fix L' D' newCode pos
  assume r: "r = Inr (pos, cb\<lparr>code := newCode\<rparr>, L', D')"
    and f: "fix_point fuel (fixups_of (code cb) 0) (startPos cb)
        (snd (create_fixups (code cb) 0 (startPos cb) L [])) D = Some (Inr (L', D'))"
  from fix_point_last [OF f] obtain D1 where
    "fix_point_body (fixups_of (code cb) 0) (startPos cb) L' D1 = Inr (L', D', False)" ..
  then have "label_pass (fixups_of (code cb) 0) D' (startPos cb) L' False = Inr (L', False)"
    by (rule fix_point_body_stable)
  from label_pass_positions [OF this] r show ?thesis by auto
qed

theorem label_positions_witness:
  "assemble 2 small_block no_labels (\<lambda>r. two_forms) =
     Some (Inr (107, small_block_assembled, no_labels(7 \<mapsto> 106),
                (\<lambda>r. two_forms)(0 := two_forms\<lparr>current := Suc 0, size_d := 5\<rparr>))) \<and>
   code small_block ! 2 = LBL 7 \<and>
   (no_labels(7 \<mapsto> 106)) 7 =
     Some (startPos small_block +
       widths ((\<lambda>r. two_forms)(0 := two_forms\<lparr>current := Suc 0, size_d := 5\<rparr>))
         (take 2 (code small_block)))"
proof -
  note a = small_block_assemble
  from label_positions [OF a] have
    "(no_labels(7 \<mapsto> 106)) 7 =
     Some (startPos small_block +
       widths ((\<lambda>r. two_forms)(0 := two_forms\<lparr>current := Suc 0, size_d := 5\<rparr>))
         (take 2 (code small_block)))"
    by (simp add: small_block_def)
  with a show ?thesis by (simp add: small_block_def)
qed

subsection \<open>The stream after assemble\<close>


lemma expand_items:
  "\<forall>x \<in> set xs. is_number x \<longrightarrow> is_byte x \<Longrightarrow>
     \<forall>x \<in> set (expand L D pos xs). is_byte x \<or> is_listing x"
proof (induction xs arbitrary: pos)
  case Nil
  then show ?case by simp
next
  case (Cons x xs)
  then show ?case
    by (cases x) auto
qed

lemma plain_fixups:
  "\<forall>x \<in> set xs. is_byte x \<or> is_listing x \<Longrightarrow> fixups_of xs span = []"
proof (induction xs arbitrary: span)
  case Nil
  then show ?case by simp
next
  case (Cons x xs)
  then show ?case by (cases x) auto
qed

lemma plain_create_fixups:
  "\<forall>x \<in> set xs. is_byte x \<or> is_listing x \<Longrightarrow> create_fixups xs span pos L fl = (fl, L)"
proof (induction xs arbitrary: span pos)
  case Nil
  then show ?case by simp
next
  case (Cons x xs)
  then show ?case by (cases x) auto
qed

lemma plain_generate:
  "\<forall>x \<in> set xs. is_byte x \<or> is_listing x \<Longrightarrow>
     generate xs L D pos acc = Inr (acc @ xs, pos + int (length (filter is_number xs)))"
proof (induction xs arbitrary: pos acc)
  case Nil
  then show ?case by simp
next
  case (Cons x xs)
  then show ?case by (cases x) auto
qed

lemma plain_assemble:
  "\<forall>x \<in> set (code cb). is_byte x \<or> is_listing x \<Longrightarrow>
     assemble (Suc fuel) cb L D = Some (Inr (startPos cb + int (byteNb cb), cb, L, D))"
  by (simp add: assemble_def plain_create_fixups plain_generate fix_point_body_def byteNb_def)

text \<open>
  Claim C10. After a successful \<open>assemble\<close> on a stream whose numbers are bytes, the
  new stream is the old one with the labels dropped and every deferred object replaced
  by the bytes of its selected production procedure; it holds only bytes (numbers from
  0 to 255) and listings; and a second \<open>assemble\<close> ends after one iteration and returns
  the same code block and the same heaps.
\<close>

theorem assembled_stream:
  assumes "assemble fuel cb L D = Some (Inr (pos, cb', L', D'))"
    and "\<forall>x \<in> set (code cb). is_number x \<longrightarrow> is_byte x"
  shows "code cb' = expand L' D' (startPos cb) (code cb) \<and>
     (\<forall>x \<in> set (code cb'). is_byte x \<or> is_listing x) \<and>
     assemble (Suc fuel') cb' L' D' = Some (Inr (startPos cb + int (byteNb cb'), cb', L', D'))"
proof -
  from assms(1) obtain newCode where
    cb': "cb' = cb\<lparr>code := newCode\<rparr>" and
    g: "generate (code cb) L' D' (startPos cb) [] = Inr (newCode, pos)"
    by (rule assemble_Some) auto
  from generate_expand [OF g] cb'
  have e: "code cb' = expand L' D' (startPos cb) (code cb)" by simp
  with expand_items [OF assms(2)]
  have p: "\<forall>x \<in> set (code cb'). is_byte x \<or> is_listing x" by simp
  from plain_assemble [OF p, of fuel' L' D'] cb' e p show ?thesis by simp
qed

theorem assembled_stream_witness:
  "assemble 2 small_block no_labels (\<lambda>r. two_forms) =
     Some (Inr (107, small_block_assembled, no_labels(7 \<mapsto> 106),
                (\<lambda>r. two_forms)(0 := two_forms\<lparr>current := Suc 0, size_d := 5\<rparr>))) \<and>
   list_all (\<lambda>x. \<not> is_number x \<or> is_byte x) (code small_block) \<and>
   code small_block_assembled = [Num 144, Num 1, Num 2, Num 3, Num 4, Num 5, Num 195] \<and>
   code small_block_assembled =
     expand (no_labels(7 \<mapsto> 106))
       ((\<lambda>r. two_forms)(0 := two_forms\<lparr>current := Suc 0, size_d := 5\<rparr>))
       (startPos small_block) (code small_block) \<and>
   list_all (\<lambda>x. is_byte x \<or> is_listing x) (code small_block_assembled) \<and>
   assemble (Suc 0) small_block_assembled (no_labels(7 \<mapsto> 106))
       ((\<lambda>r. two_forms)(0 := two_forms\<lparr>current := Suc 0, size_d := 5\<rparr>)) =
     Some (Inr (107, small_block_assembled, no_labels(7 \<mapsto> 106),
                (\<lambda>r. two_forms)(0 := two_forms\<lparr>current := Suc 0, size_d := 5\<rparr>)))"
proof -
  note a = small_block_assemble
  have b: "\<forall>x \<in> set (code small_block). is_number x \<longrightarrow> is_byte x"
    by (simp add: small_block_def)
  from assembled_stream [OF a b, of 0] a b show ?thesis
    by (simp add: small_block_def small_block_assembled_def byteNb_def list_all_iff)
qed

subsection \<open>The value returned by assemble\<close>


lemma size_entry_frame:
  "size_entry e L pos D ch = Inr (pos', D', ch') \<Longrightarrow> snd e \<noteq> DEF d \<Longrightarrow> D' d = D d"
  by (auto simp: size_entry_def Let_def split: item.splits option.splits if_splits)


lemma fixups_of_refs:
  "DEF d \<in> snd ` set (fixups_of xs span) \<longleftrightarrow> d \<in> set (deferreds_of xs)"
proof (induction xs arbitrary: span)
  case Nil
  then show ?case by simp
next
  case (Cons x xs)
  then show ?case by (cases x) auto
qed

lemma fixups_of_labels:
  "LBL l \<in> snd ` set (fixups_of xs span) \<longleftrightarrow> l \<in> set (labels_of xs)"
proof (induction xs arbitrary: span)
  case Nil
  then show ?case by simp
next
  case (Cons x xs)
  then show ?case by (cases x) auto
qed

lemma accepted_at_cong:
  "\<forall>d \<in> set (deferreds_of xs). D1 d = D2 d \<Longrightarrow> accepted_at L D1 pos xs = accepted_at L D2 pos xs"
proof (induction xs arbitrary: pos)
  case Nil
  then show ?case by simp
next
  case (Cons x xs)
  then show ?case by (cases x) auto
qed








subsection \<open>The end of the fix-point\<close>


lemma label_pass_frame:
  "label_pass fl D pos L ch = Inr (L', ch') \<Longrightarrow> LBL l \<notin> snd ` set fl \<Longrightarrow> L' l = L l"
proof (induction fl arbitrary: pos L ch)
  case Nil
  then show ?case by simp
next
  case (Cons e fl)
  obtain span x where e: "e = (span, x)" by (cases e)
  show ?case
  proof (cases x)
    case (Num n)
    with Cons.prems e Cons.IH [of "pos + span" L ch] show ?thesis by simp
  next
    case (LST t)
    with Cons.prems e Cons.IH [of "pos + span" L ch] show ?thesis by simp
  next
    case (DEF d)
    with Cons.prems e Cons.IH [of "pos + span + size_d (D d)" L ch] show ?thesis by simp
  next
    case (LBL l0)
    with Cons.prems e obtain p where p: "L l0 = Some p" by (auto split: option.splits)
    from Cons.prems(2) e LBL have ne: "l \<noteq> l0" and nl: "LBL l \<notin> snd ` set fl" by auto
    show ?thesis
    proof (cases "p \<noteq> pos + span")
      case True
      with Cons.prems(1) e LBL p
      have "label_pass fl D (pos + span) (L(l0 \<mapsto> pos + span)) True = Inr (L', ch')" by simp
      from Cons.IH [OF this nl] ne show ?thesis by simp
    next
      case False
      with Cons.prems(1) e LBL p
      have "label_pass fl D (pos + span) L ch = Inr (L', ch')" by simp
      from Cons.IH [OF this nl] show ?thesis .
    qed
  qed
qed

lemma label_pass_idem:
  "label_pass fl D pos L ch = Inr (L', ch') \<Longrightarrow>
     distinct [l. (span, LBL l) \<leftarrow> fl] \<Longrightarrow>
     label_pass fl D pos L' False = Inr (L', False)"
proof (induction fl arbitrary: pos L ch)
  case Nil
  then show ?case by simp
next
  case (Cons e fl)
  obtain span x where e: "e = (span, x)" by (cases e)
  show ?case
  proof (cases x)
    case (Num n)
    with Cons.prems e Cons.IH [of "pos + span" L ch] show ?thesis by simp
  next
    case (LST t)
    with Cons.prems e Cons.IH [of "pos + span" L ch] show ?thesis by simp
  next
    case (DEF d)
    with Cons.prems e Cons.IH [of "pos + span + size_d (D d)" L ch] show ?thesis by simp
  next
    case (LBL l)
    with Cons.prems e obtain p where p: "L l = Some p" by (auto split: option.splits)
    from Cons.prems(2) e LBL
    have nl: "LBL l \<notin> snd ` set fl" and dist: "distinct [l. (span, LBL l) \<leftarrow> fl]"
      by (auto simp: image_iff)
    show ?thesis
    proof (cases "p \<noteq> pos + span")
      case True
      with Cons.prems(1) e LBL p
      have r: "label_pass fl D (pos + span) (L(l \<mapsto> pos + span)) True = Inr (L', ch')" by simp
      from Cons.IH [OF r dist]
      have ih: "label_pass fl D (pos + span) L' False = Inr (L', False)" .
      from label_pass_frame [OF r nl] have "L' l = Some (pos + span)" by simp
      with ih e LBL show ?thesis by simp
    next
      case False
      with Cons.prems(1) e LBL p
      have r: "label_pass fl D (pos + span) L ch = Inr (L', ch')" by simp
      from Cons.IH [OF r dist]
      have ih: "label_pass fl D (pos + span) L' False = Inr (L', False)" .
      from label_pass_frame [OF r nl] p False have "L' l = Some (pos + span)" by simp
      with ih e LBL show ?thesis by simp
    qed
  qed
qed

lemma fixups_of_label_list:
  "[l. (s, LBL l) \<leftarrow> fixups_of xs span] = labels_of xs"
proof (induction xs arbitrary: span)
  case Nil
  then show ?case by simp
next
  case (Cons x xs)
  then show ?case by (cases x) auto
qed

lemma label_pass_sizes:
  "\<forall>d. size_d (D1 d) = size_d (D2 d) \<Longrightarrow>
     label_pass fl D1 pos L ch = label_pass fl D2 pos L ch"
proof (induction fl arbitrary: pos L ch)
  case Nil
  then show ?case by simp
next
  case (Cons e fl)
  obtain span x where e: "e = (span, x)" by (cases e)
  from Cons show ?case unfolding e
    by (cases x) (simp_all split: option.splits)
qed

lemma size_entry_unchanged:
  assumes "size_entry e L pos D ch = Inr (pos', D', False)"
  shows "size_d (D' d) = size_d (D d)" and "\<not> ch"
  using assms
  by (auto simp: size_entry_def Let_def split: item.splits option.splits if_splits)

lemma deferred_pass_unchanged:
  "deferred_pass fl L pos D ch = Inr (D', False) \<Longrightarrow> size_d (D' d) = size_d (D d)"
proof (induction fl arbitrary: pos D ch)
  case Nil
  then show ?case by simp
next
  case (Cons e fl)
  from Cons.prems obtain pos1 D1 ch1 where
    e: "size_entry e L pos D ch = Inr (pos1, D1, ch1)" and
    r: "deferred_pass fl L pos1 D1 ch1 = Inr (D', False)"
    by (auto split: sum.splits)
  have "\<not> ch1" using r deferred_pass_flag by (cases ch1) auto
  with e size_entry_unchanged(1) [of e L pos D ch pos1 D1 d] Cons.IH [OF r] show ?case by simp
qed


lemma size_entry_settles:
  assumes "size_entry (span, DEF d) L pos D ch = Inr (pos', D', ch')"
    and "fixed_checks (checks (D d))"
  shows "settled D' d"
proof -
  let ?r = "try_checks (checks (D d)) L (pos + span) (current (D d))"
  from assms(1) obtain newSize where
    t: "snd ?r = Some newSize" and
    D': "D' = D(d := (D d)\<lparr>current := fst ?r, size_d := newSize\<rparr>)"
    by (rule size_entry_DEF)
  from try_checks_accepted [OF t]
  have c: "fst ?r < length (checks (D d))" and a: "(checks (D d) ! fst ?r) L (pos + span) = Some newSize"
    by simp_all
  from assms(2) c a have "\<forall>M p s. (checks (D d) ! fst ?r) M p = Some s \<longrightarrow> s = newSize"
    unfolding fixed_checks_def by blast
  with c D' show ?thesis by (simp add: settled_def)
qed

lemma size_entry_settled:
  assumes "size_entry e L pos D ch = Inr (pos', D', ch')"
    and "fixed_checks (checks (D d))"
    and "settled D d \<or> snd e = DEF d"
  shows "settled D' d"
proof (cases "snd e = DEF d")
  case True
  then have "e = (fst e, DEF d)" by (cases e) simp
  with assms(1) have "size_entry (fst e, DEF d) L pos D ch = Inr (pos', D', ch')" by simp
  from size_entry_settles [OF this assms(2)] show ?thesis .
next
  case False
  from size_entry_frame [OF assms(1) False] assms(3) False show ?thesis
    by (simp add: settled_def)
qed

lemma deferred_pass_settled:
  "deferred_pass fl L pos D ch = Inr (D', ch') \<Longrightarrow> fixed_checks (checks (D d)) \<Longrightarrow>
     settled D d \<or> DEF d \<in> snd ` set fl \<Longrightarrow> settled D' d"
proof (induction fl arbitrary: pos D ch)
  case Nil
  then show ?case by simp
next
  case (Cons e fl)
  from Cons.prems obtain pos1 D1 ch1 where
    e: "size_entry e L pos D ch = Inr (pos1, D1, ch1)" and
    r: "deferred_pass fl L pos1 D1 ch1 = Inr (D', ch')"
    by (auto split: sum.splits)
  from size_entry_current [OF e, of d] Cons.prems(2)
  have f: "fixed_checks (checks (D1 d))" by simp
  from Cons.prems(3) have "(settled D d \<or> snd e = DEF d) \<or> DEF d \<in> snd ` set fl" by auto
  then show ?case
  proof
    assume "settled D d \<or> snd e = DEF d"
    from size_entry_settled [OF e Cons.prems(2) this] have "settled D1 d" .
    with Cons.IH [OF r f] show ?thesis by simp
  next
    assume "DEF d \<in> snd ` set fl"
    with Cons.IH [OF r f] show ?thesis by simp
  qed
qed

lemma size_entry_progress:
  assumes "size_entry e L pos D ch = Inr (pos', D', ch')"
    and "\<not> ch" and "ch'"
    and "\<forall>d. snd e = DEF d \<longrightarrow> settled D d"
  shows "\<exists>d. snd e = DEF d \<and> current (D d) < current (D' d)"
proof (cases "\<exists>d. snd e = DEF d")
  case False
  then have "\<And>d. snd e \<noteq> DEF d" by blast
  from size_entry_other [OF this, of "fst e" L pos D ch] assms(1-3) show ?thesis by simp
next
  case True
  then obtain d where d: "snd e = DEF d" ..
  then have "e = (fst e, DEF d)" by (cases e) simp
  with assms(1) have e: "size_entry (fst e, DEF d) L pos D ch = Inr (pos', D', ch')" by simp
  let ?r = "try_checks (checks (D d)) L (pos + fst e) (current (D d))"
  from e obtain newSize where
    t: "snd ?r = Some newSize" and
    D': "D' = D(d := (D d)\<lparr>current := fst ?r, size_d := newSize\<rparr>)" and
    c: "ch' = (ch \<or> size_d (D d) \<noteq> newSize)"
    by (rule size_entry_DEF)
  from c assms(2,3) have ne: "size_d (D d) \<noteq> newSize" by simp
  from try_checks_accepted [OF t]
  have a: "(checks (D d) ! fst ?r) L (pos + fst e) = Some newSize" by simp
  from assms(4) d have "settled D d" by simp
  with a ne have "fst ?r \<noteq> current (D d)" by (auto simp: settled_def)
  with try_checks_mono [of "current (D d)" "checks (D d)" L "pos + fst e"]
  have "current (D d) < fst ?r" by simp
  with D' d show ?thesis by simp
qed

lemma deferred_pass_progress:
  "deferred_pass fl L pos D ch = Inr (D', ch') \<Longrightarrow> \<not> ch \<Longrightarrow> ch' \<Longrightarrow>
     \<forall>d. DEF d \<in> snd ` set fl \<longrightarrow> settled D d \<and> fixed_checks (checks (D d)) \<Longrightarrow>
     \<exists>d. DEF d \<in> snd ` set fl \<and> current (D d) < current (D' d)"
proof (induction fl arbitrary: pos D ch)
  case Nil
  then show ?case by simp
next
  case (Cons e fl)
  from Cons.prems obtain pos1 D1 ch1 where
    e: "size_entry e L pos D ch = Inr (pos1, D1, ch1)" and
    r: "deferred_pass fl L pos1 D1 ch1 = Inr (D', ch')"
    by (auto split: sum.splits)
  show ?case
  proof (cases ch1)
    case True
    from Cons.prems(4) have "\<forall>d. snd e = DEF d \<longrightarrow> settled D d" by auto
    from size_entry_progress [OF e Cons.prems(2) True this]
    obtain d where d: "snd e = DEF d" "current (D d) < current (D1 d)" by blast
    from deferred_pass_current [OF r, of d] d show ?thesis by fastforce
  next
    case False
    have "\<forall>d. DEF d \<in> snd ` set fl \<longrightarrow> settled D1 d \<and> fixed_checks (checks (D1 d))"
    proof (intro allI impI)
      fix d assume "DEF d \<in> snd ` set fl"
      with Cons.prems(4) have s: "settled D d" and f: "fixed_checks (checks (D d))" by auto
      from size_entry_settled [OF e f] s size_entry_current [OF e, of d] f
      show "settled D1 d \<and> fixed_checks (checks (D1 d))" by simp
    qed
    from Cons.IH [OF r False Cons.prems(3) this]
    obtain d where d: "DEF d \<in> snd ` set fl" "current (D1 d) < current (D' d)" by blast
    from size_entry_current [OF e, of d] d show ?thesis by fastforce
  qed
qed

lemma remaining_decreases:
  assumes "finite R"
    and "\<forall>d. current (D d) \<le> current (D' d) \<and> checks (D' d) = checks (D d)"
    and "\<exists>d \<in> R. current (D d) < current (D' d) \<and> current (D' d) < length (checks (D' d))"
  shows "sum (remaining D') R < sum (remaining D) R"
proof (rule sum_strict_mono_ex1 [OF assms(1)])
  show "\<forall>d \<in> R. remaining D' d \<le> remaining D d"
  proof
    fix d assume "d \<in> R"
    from assms(2) have "current (D d) \<le> current (D' d)" "checks (D' d) = checks (D d)" by simp_all
    then show "remaining D' d \<le> remaining D d" unfolding remaining_def by simp
  qed
  from assms(3) obtain d where d: "d \<in> R" "current (D d) < current (D' d)"
    "current (D' d) < length (checks (D' d))" by blast
  from assms(2) have "checks (D' d) = checks (D d)" by simp
  with d have "remaining D' d < remaining D d" unfolding remaining_def by simp
  with d(1) show "\<exists>d \<in> R. remaining D' d < remaining D d" ..
qed

lemma fix_point_more_fuel:
  "fix_point n fl start L D = Some r \<Longrightarrow> fix_point (n + k) fl start L D = Some r"
proof (induction n arbitrary: L D)
  case 0
  then show ?case by simp
next
  case (Suc n)
  show ?case
  proof (cases "fix_point_body fl start L D")
    case (Inl err)
    with Suc.prems show ?thesis by simp
  next
    case (Inr t)
    obtain L1 D1 c where t: "t = (L1, D1, c)" by (cases t)
    show ?thesis
    proof (cases c)
      case True
      with Suc.prems Inr t have "fix_point n fl start L1 D1 = Some r" by simp
      from Suc.IH [OF this] Inr t True show ?thesis by simp
    next
      case False
      with Suc.prems Inr t show ?thesis by simp
    qed
  qed
qed

text \<open>
  From a state in which every deferred object of the fixup list is settled and the
  labels agree with the sizes, the loop ends after at most one iteration more than
  there are remaining alternatives.
\<close>

lemma fix_point_settled_ends:
  assumes dist: "distinct [l. (span, LBL l) \<leftarrow> fl]"
  shows "(\<forall>d. DEF d \<in> snd ` set fl \<longrightarrow> settled D d \<and> fixed_checks (checks (D d))) \<Longrightarrow>
     label_pass fl D start L False = Inr (L, False) \<Longrightarrow>
     sum (remaining D) {d. DEF d \<in> snd ` set fl} \<le> n \<Longrightarrow>
     \<exists>r. fix_point (Suc n) fl start L D = Some r"
proof (induction n arbitrary: L D)
  case 0
  let ?R = "{d. DEF d \<in> snd ` set fl}"
  have fin: "finite ?R"
  proof (rule finite_subset)
    show "?R \<subseteq> (\<lambda>e. case snd e of DEF d \<Rightarrow> d | _ \<Rightarrow> 0) ` set fl" by force
  qed simp
  show ?case
  proof (cases "fix_point_body fl start L D")
    case (Inl err)
    then show ?thesis by simp
  next
    case (Inr t)
    obtain L1 D1 c where t: "t = (L1, D1, c)" by (cases t)
    with Inr obtain c1 where
      dp: "deferred_pass fl L start D False = Inr (D1, c1)" and
      lp: "label_pass fl D1 start L c1 = Inr (L1, c)"
      by (auto simp: fix_point_body_def split: sum.splits)
    have "\<not> c"
    proof (cases c1)
      case False
      with dp have "\<forall>d. size_d (D1 d) = size_d (D d)" by (auto dest: deferred_pass_unchanged)
      from label_pass_sizes [OF this, of fl start L False] "0.prems"(2) lp False
      show ?thesis by simp
    next
      case True
      from deferred_pass_progress [OF dp _ True "0.prems"(1)]
      obtain d where d: "DEF d \<in> snd ` set fl" "current (D d) < current (D1 d)" by auto
      from "0.prems"(1) d have "fixed_checks (checks (D d))" by simp
      from deferred_pass_settled [OF dp this] d have "settled D1 d" by simp
      then have "current (D1 d) < length (checks (D1 d))" by (simp add: settled_def)
      with d have "\<exists>d \<in> ?R. current (D d) < current (D1 d) \<and> current (D1 d) < length (checks (D1 d))"
        by blast
      moreover from deferred_pass_current [OF dp]
      have "\<forall>d. current (D d) \<le> current (D1 d) \<and> checks (D1 d) = checks (D d)" by blast
      ultimately have "sum (remaining D1) ?R < sum (remaining D) ?R"
        using fin by (intro remaining_decreases)
      with "0.prems"(3) show ?thesis by simp
    qed
    with Inr t show ?thesis by simp
  qed
next
  case (Suc n)
  let ?R = "{d. DEF d \<in> snd ` set fl}"
  have fin: "finite ?R"
  proof (rule finite_subset)
    show "?R \<subseteq> (\<lambda>e. case snd e of DEF d \<Rightarrow> d | _ \<Rightarrow> 0) ` set fl" by force
  qed simp
  show ?case
  proof (cases "fix_point_body fl start L D")
    case (Inl err)
    then show ?thesis by simp
  next
    case (Inr t)
    obtain L1 D1 c where t: "t = (L1, D1, c)" by (cases t)
    with Inr obtain c1 where
      dp: "deferred_pass fl L start D False = Inr (D1, c1)" and
      lp: "label_pass fl D1 start L c1 = Inr (L1, c)"
      by (auto simp: fix_point_body_def split: sum.splits)
    show ?thesis
    proof (cases c)
      case False
      with Inr t show ?thesis by simp
    next
      case True
      have c1t: c1
      proof (rule ccontr)
        assume "\<not> c1"
        with dp have "\<forall>d. size_d (D1 d) = size_d (D d)" by (auto dest: deferred_pass_unchanged)
        from label_pass_sizes [OF this, of fl start L False] Suc.prems(2) lp \<open>\<not> c1\<close> True
        show False by simp
      qed
      from deferred_pass_progress [OF dp _ c1t Suc.prems(1)]
      obtain d where d: "DEF d \<in> snd ` set fl" "current (D d) < current (D1 d)" by auto
      have s1: "\<forall>d. DEF d \<in> snd ` set fl \<longrightarrow> settled D1 d \<and> fixed_checks (checks (D1 d))"
      proof (intro allI impI)
        fix d assume d: "DEF d \<in> snd ` set fl"
        with Suc.prems(1) have f: "fixed_checks (checks (D d))" by simp
        from deferred_pass_settled [OF dp f] d deferred_pass_current [OF dp, of d] f
        show "settled D1 d \<and> fixed_checks (checks (D1 d))" by simp
      qed
      with d have "current (D1 d) < length (checks (D1 d))" by (simp add: settled_def)
      with d have "\<exists>d \<in> ?R. current (D d) < current (D1 d) \<and> current (D1 d) < length (checks (D1 d))"
        by blast
      moreover from deferred_pass_current [OF dp]
      have "\<forall>d. current (D d) \<le> current (D1 d) \<and> checks (D1 d) = checks (D d)" by blast
      ultimately have "sum (remaining D1) ?R < sum (remaining D) ?R"
        using fin by (intro remaining_decreases)
      with Suc.prems(3) have le: "sum (remaining D1) ?R \<le> n" by simp
      from label_pass_idem [OF lp dist]
      have "label_pass fl D1 start L1 False = Inr (L1, False)" .
      from Suc.IH [OF s1 this le] Inr t True show ?thesis by simp
    qed
  qed
qed


lemma max_alternatives_ge:
  "d \<in> set (deferreds_of xs) \<Longrightarrow> length (checks (D d)) \<le> max_alternatives D xs"
proof (induction xs)
  case Nil
  then show ?case by simp
next
  case (Cons x xs)
  then show ?case by (cases x) auto
qed

lemma remaining_bound:
  assumes "\<forall>d. checks (D1 d) = checks (D d)"
  shows "sum (remaining D1) (set (deferreds_of xs))
     \<le> length (deferreds_of xs) * (max_alternatives D xs - 1)"
proof -
  have "sum (remaining D1) (set (deferreds_of xs))
      \<le> of_nat (card (set (deferreds_of xs))) * (max_alternatives D xs - 1)"
  proof (rule sum_bounded_above)
    fix d assume "d \<in> set (deferreds_of xs)"
    from max_alternatives_ge [OF this, of D] assms
    show "remaining D1 d \<le> max_alternatives D xs - 1"
      by (simp add: remaining_def)
  qed
  also have "\<dots> \<le> length (deferreds_of xs) * (max_alternatives D xs - 1)"
    by (simp add: card_length mult_le_mono1)
  finally show ?thesis .
qed

lemma fix_point_ends:
  assumes "fixed_sizes D xs" and "distinct (labels_of xs)"
  shows "\<exists>r. fix_point (length (deferreds_of xs) * (max_alternatives D xs - 1) + 2)
           (fixups_of xs 0) start L D = Some r"
proof -
  let ?fl = "fixups_of xs 0"
  let ?n = "length (deferreds_of xs) * (max_alternatives D xs - 1)"
  have R: "{d. DEF d \<in> snd ` set ?fl} = set (deferreds_of xs)"
    using fixups_of_refs [of _ xs 0] by blast
  from assms(2) have dist: "distinct [l. (span, LBL l) \<leftarrow> ?fl]"
    by (simp add: fixups_of_label_list)
  have "\<exists>r. fix_point (Suc (Suc ?n)) ?fl start L D = Some r"
  proof (cases "fix_point_body ?fl start L D")
    case (Inl err)
    then show ?thesis by simp
  next
    case (Inr t)
    obtain L1 D1 c where t: "t = (L1, D1, c)" by (cases t)
    with Inr obtain c1 where
      dp: "deferred_pass ?fl L start D False = Inr (D1, c1)" and
      lp: "label_pass ?fl D1 start L c1 = Inr (L1, c)"
      by (auto simp: fix_point_body_def split: sum.splits)
    show ?thesis
    proof (cases c)
      case False
      with Inr t show ?thesis by simp
    next
      case True
      have s1: "\<forall>d. DEF d \<in> snd ` set ?fl \<longrightarrow> settled D1 d \<and> fixed_checks (checks (D1 d))"
      proof (intro allI impI)
        fix d assume d: "DEF d \<in> snd ` set ?fl"
        with assms(1) have f: "fixed_checks (checks (D d))"
          by (simp add: fixed_sizes_def fixups_of_refs)
        from deferred_pass_settled [OF dp f] d deferred_pass_current [OF dp, of d] f
        show "settled D1 d \<and> fixed_checks (checks (D1 d))" by simp
      qed
      from label_pass_idem [OF lp dist]
      have l1: "label_pass ?fl D1 start L1 False = Inr (L1, False)" .
      from deferred_pass_current [OF dp] have "\<forall>d. checks (D1 d) = checks (D d)" by blast
      from remaining_bound [OF this, of xs] R
      have "sum (remaining D1) {d. DEF d \<in> snd ` set ?fl} \<le> ?n" by simp
      from fix_point_settled_ends [OF dist s1 l1 this] Inr t True show ?thesis by simp
    qed
  qed
  then show ?thesis by simp
qed


lemma try_checks_last:
  "cur < length cs \<Longrightarrow> \<forall>L pos. last cs L pos \<noteq> None \<Longrightarrow>
     \<exists>s. snd (try_checks cs L pos cur) = Some s"
proof (induction cs L pos cur rule: try_checks.induct)
  case (1 cs L pos cur)
  show ?case
  proof (cases "(cs ! cur) L pos")
    case (Some s)
    with "1.prems" show ?thesis by (simp add: try_checks.simps [of cs L pos cur])
  next
    case None
    from "1.prems"(1) have "cs \<noteq> []" by auto
    then have "last cs = cs ! (length cs - 1)" by (rule last_conv_nth)
    with None "1.prems"(2) have "cur \<noteq> length cs - 1" by metis
    with "1.prems"(1) have "Suc cur < length cs" by simp
    from "1.IH" [OF "1.prems"(1) None this "1.prems"(2)] None "1.prems"(1)
    show ?thesis by (simp add: try_checks.simps [of cs L pos cur])
  qed
qed

lemma size_entry_ready:
  assumes "size_entry e L pos D ch = Inr (pos', D', ch')" and "ready D d"
  shows "ready D' d"
proof (cases "snd e = DEF d")
  case False
  from size_entry_frame [OF assms(1) False] assms(2) show ?thesis by (simp add: ready_def)
next
  case True
  then have "e = (fst e, DEF d)" by (cases e) simp
  with assms(1) have "size_entry (fst e, DEF d) L pos D ch = Inr (pos', D', ch')" by simp
  then obtain newSize where
    t: "snd (try_checks (checks (D d)) L (pos + fst e) (current (D d))) = Some newSize" and
    D': "D' = D(d := (D d)\<lparr>current := fst (try_checks (checks (D d)) L (pos + fst e) (current (D d))),
            size_d := newSize\<rparr>)"
    by (rule size_entry_DEF)
  from try_checks_accepted [OF t] D' assms(2) show ?thesis by (simp add: ready_def)
qed

lemma size_entry_succeeds:
  assumes "\<forall>d. snd e = DEF d \<longrightarrow> ready D d"
  shows "\<exists>pos' D' ch'. size_entry e L pos D ch = Inr (pos', D', ch')"
proof (cases "snd e")
  case (DEF d)
  with assms have "ready D d" by simp
  then have "\<exists>s. snd (try_checks (checks (D d)) L (pos + fst e) (current (D d))) = Some s"
    by (intro try_checks_last) (simp_all add: ready_def)
  with DEF show ?thesis by (auto simp: size_entry_def Let_def)
qed (simp_all add: size_entry_def)

lemma deferred_pass_ready:
  "deferred_pass fl L pos D ch = Inr (D', ch') \<Longrightarrow> ready D d \<Longrightarrow> ready D' d"
proof (induction fl arbitrary: pos D ch)
  case Nil
  then show ?case by simp
next
  case (Cons e fl)
  from Cons.prems obtain pos1 D1 ch1 where
    e: "size_entry e L pos D ch = Inr (pos1, D1, ch1)" and
    r: "deferred_pass fl L pos1 D1 ch1 = Inr (D', ch')"
    by (auto split: sum.splits)
  from size_entry_ready [OF e Cons.prems(2)] Cons.IH [OF r] show ?case by simp
qed

lemma deferred_pass_succeeds:
  "\<forall>d. DEF d \<in> snd ` set fl \<longrightarrow> ready D d \<Longrightarrow>
     \<exists>D' ch'. deferred_pass fl L pos D ch = Inr (D', ch')"
proof (induction fl arbitrary: pos D ch)
  case Nil
  then show ?case by simp
next
  case (Cons e fl)
  from Cons.prems have "\<forall>d. snd e = DEF d \<longrightarrow> ready D d" by auto
  from size_entry_succeeds [OF this, of L pos ch] obtain pos1 D1 ch1 where
    e: "size_entry e L pos D ch = Inr (pos1, D1, ch1)" by blast
  from Cons.prems size_entry_ready [OF e]
  have "\<forall>d. DEF d \<in> snd ` set fl \<longrightarrow> ready D1 d" by auto
  from Cons.IH [OF this, of pos1 ch1] e show ?case by simp
qed

lemma label_pass_succeeds:
  "\<forall>l. LBL l \<in> snd ` set fl \<longrightarrow> L l \<noteq> None \<Longrightarrow>
     \<exists>L' ch'. label_pass fl D pos L ch = Inr (L', ch') \<and> (\<forall>l. L l \<noteq> None \<longrightarrow> L' l \<noteq> None)"
proof (induction fl arbitrary: pos L ch)
  case Nil
  then show ?case by simp
next
  case (Cons e fl)
  obtain span x where e: "e = (span, x)" by (cases e)
  from Cons.prems have rest: "\<forall>l. LBL l \<in> snd ` set fl \<longrightarrow> L l \<noteq> None" by auto
  show ?case
  proof (cases x)
    case (Num n)
    with e Cons.IH [OF rest, of "pos + span" ch] show ?thesis by simp
  next
    case (LST t)
    with e Cons.IH [OF rest, of "pos + span" ch] show ?thesis by simp
  next
    case (DEF d)
    with e Cons.IH [OF rest, of "pos + span + size_d (D d)" ch] show ?thesis by simp
  next
    case (LBL l)
    with Cons.prems e obtain p where p: "L l = Some p" by auto
    show ?thesis
    proof (cases "p \<noteq> pos + span")
      case False
      with e LBL p Cons.IH [OF rest, of "pos + span" ch] show ?thesis by simp
    next
      case True
      from rest have "\<forall>k. LBL k \<in> snd ` set fl \<longrightarrow> (L(l \<mapsto> pos + span)) k \<noteq> None" by simp
      from Cons.IH [OF this, of "pos + span" True] obtain L' ch' where
        "label_pass fl D (pos + span) (L(l \<mapsto> pos + span)) True = Inr (L', ch')"
        "\<forall>k. (L(l \<mapsto> pos + span)) k \<noteq> None \<longrightarrow> L' k \<noteq> None" by blast
      with e LBL p True show ?thesis by (auto split: if_splits)
    qed
  qed
qed

lemma create_fixups_defined:
  "L l \<noteq> None \<or> l \<in> set (labels_of xs) \<Longrightarrow> snd (create_fixups xs span pos L fl) l \<noteq> None"
proof (induction xs arbitrary: span pos L fl)
  case Nil
  then show ?case by simp
next
  case (Cons x xs)
  show ?case
  proof (cases x)
    case (LBL l0)
    from Cons.prems LBL have "(L(l0 \<mapsto> pos)) l \<noteq> None \<or> l \<in> set (labels_of xs)" by auto
    then have "snd (create_fixups xs 0 pos (L(l0 \<mapsto> pos)) (fl @ [(span, LBL l0)])) l \<noteq> None"
      by (rule Cons.IH)
    with LBL show ?thesis by simp
  next
    case (Num n)
    with Cons.prems Cons.IH [of L] show ?thesis by simp
  next
    case (DEF d)
    with Cons.prems Cons.IH [of L] show ?thesis by simp
  next
    case (LST t)
    with Cons.prems Cons.IH [of L] show ?thesis by simp
  qed
qed

lemma fix_point_succeeds:
  "\<forall>d. DEF d \<in> snd ` set fl \<longrightarrow> ready D d \<Longrightarrow>
   \<forall>l. LBL l \<in> snd ` set fl \<longrightarrow> L l \<noteq> None \<Longrightarrow>
   fix_point n fl start L D = Some r \<Longrightarrow>
     \<exists>L' D'. r = Inr (L', D') \<and> (\<forall>d. DEF d \<in> snd ` set fl \<longrightarrow> ready D' d)"
proof (induction n arbitrary: L D)
  case 0
  then show ?case by simp
next
  case (Suc n)
  from deferred_pass_succeeds [OF Suc.prems(1), of L start False] obtain D1 c1 where
    dp: "deferred_pass fl L start D False = Inr (D1, c1)" by blast
  from label_pass_succeeds [OF Suc.prems(2), of D1 start c1] obtain L1 c where
    lp: "label_pass fl D1 start L c1 = Inr (L1, c)" and
    def: "\<forall>l. L l \<noteq> None \<longrightarrow> L1 l \<noteq> None" by blast
  from dp lp have b: "fix_point_body fl start L D = Inr (L1, D1, c)"
    by (simp add: fix_point_body_def)
  from Suc.prems(1) deferred_pass_ready [OF dp]
  have r1: "\<forall>d. DEF d \<in> snd ` set fl \<longrightarrow> ready D1 d" by auto
  from Suc.prems(2) def have l1: "\<forall>l. LBL l \<in> snd ` set fl \<longrightarrow> L1 l \<noteq> None" by auto
  show ?case
  proof (cases c)
    case True
    with Suc.prems(3) b have "fix_point n fl start L1 D1 = Some r" by simp
    from Suc.IH [OF r1 l1 this] show ?thesis .
  next
    case False
    with Suc.prems(3) b r1 show ?thesis by auto
  qed
qed

lemma generate_succeeds:
  "label_pass (fixups_of xs span) D pos L False = Inr (L, False) \<Longrightarrow>
     \<forall>d \<in> set (deferreds_of xs). current (D d) < length (prods (D d)) \<Longrightarrow>
     \<exists>newCode pos'. generate xs L D (pos + span) acc = Inr (newCode, pos')"
proof (induction xs arbitrary: span pos acc)
  case Nil
  then show ?case by simp
next
  case (Cons x xs)
  show ?case
  proof (cases x)
    case (Num n)
    with Cons.prems Cons.IH [of "span + 1" pos "acc @ [Num n]"]
    show ?thesis by (simp add: add.assoc)
  next
    case (LBL l0)
    from Cons.prems(1) LBL have
      p: "L l0 = Some (pos + span)" and
      r: "label_pass (fixups_of xs 0) D (pos + span) L False = Inr (L, False)"
      by (auto split: option.splits if_splits dest: label_pass_flag)
    from Cons.prems(2) LBL have "\<forall>d \<in> set (deferreds_of xs). current (D d) < length (prods (D d))"
      by simp
    from Cons.IH [OF r this, of acc] p LBL show ?thesis by simp
  next
    case (DEF d)
    with Cons.prems Cons.IH [of 0 "pos + span + size_d (D d)"]
    show ?thesis by simp
  next
    case (LST t)
    with Cons.prems Cons.IH [of span pos "acc @ [LST t]"]
    show ?thesis by simp
  qed
qed

subsection \<open>The number of iterations of the fix-point\<close>

lemma at_label_body1:
  "fix_point_body [(0, DEF 0), (0, LBL 0)] 0 (no_labels(0 \<mapsto> 0)) (\<lambda>r. at_label) =
     Inr (no_labels(0 \<mapsto> 1), (\<lambda>r. at_label)(0 := at_label\<lparr>current := 0, size_d := 1\<rparr>), True)"
  by (simp add: fix_point_body_def size_entry_def try_checks.simps at_label_def Let_def)

lemma at_label_body2:
  "fix_point_body [(0, DEF 0), (0, LBL 0)] 0 (no_labels(0 \<mapsto> 1))
       ((\<lambda>r. at_label)(0 := at_label\<lparr>current := 0, size_d := 1\<rparr>)) =
     Inr (no_labels(0 \<mapsto> 0), (\<lambda>r. at_label), True)"
  by (simp add: fix_point_body_def size_entry_def try_checks.simps at_label_def Let_def
      fun_upd_idem_iff)

text \<open>Two states that the body of the loop maps to each other: the loop never ends.\<close>

lemma fix_point_two_cycle:
  assumes "fix_point_body fl start L1 D1 = Inr (L2, D2, True)"
    and "fix_point_body fl start L2 D2 = Inr (L1, D1, True)"
  shows "fix_point n fl start L1 D1 = None \<and> fix_point n fl start L2 D2 = None"
  by (induction n) (simp_all add: assms)

lemma at_label_fix_point:
  "fix_point n [(0, DEF 0), (0, LBL 0)] 0 (no_labels(0 \<mapsto> 0)) (\<lambda>r. at_label) = None"
  using fix_point_two_cycle [OF at_label_body1 at_label_body2] by simp

lemma at_label_never_ends:
  "assemble n at_label_block no_labels (\<lambda>r. at_label) = None"
  using at_label_fix_point [of n]
  by (simp add: assemble_def at_label_block_def)

text \<open>
  Two well-formed code blocks. In the first, the size of the deferred object depends
  on the position of the label after it: the loop has not ended after the
  \<open>D * (A - 1) + L + 1 = 2\<close> iterations of the bound, and never ends
  (\<open>at_label_never_ends\<close>). In the second, one deferred object of two bytes and no
  label: the bound is 1, and the loop needs a second iteration to find that nothing
  changes any more.
\<close>

theorem assemble_bound_counterexample:
  "well_formed (\<lambda>r. at_label) (code at_label_block) \<and>
   pass_bound (\<lambda>r. at_label) (code at_label_block) = 2 \<and>
   assemble (pass_bound (\<lambda>r. at_label) (code at_label_block)) at_label_block no_labels
     (\<lambda>r. at_label) = None \<and>
   well_formed (\<lambda>r. two_bytes) (code two_bytes_block) \<and>
   pass_bound (\<lambda>r. two_bytes) (code two_bytes_block) = 1 \<and>
   assemble (pass_bound (\<lambda>r. two_bytes) (code two_bytes_block)) two_bytes_block no_labels
     (\<lambda>r. two_bytes) = None"
proof -
  have "well_formed (\<lambda>r. at_label) (code at_label_block)"
    by (auto simp: well_formed_def at_label_block_def at_label_def split: option.splits)
  moreover have "pass_bound (\<lambda>r. at_label) (code at_label_block) = 2"
    by (simp add: pass_bound_def at_label_block_def at_label_def)
  moreover have "well_formed (\<lambda>r. two_bytes) (code two_bytes_block)"
    by (simp add: well_formed_def two_bytes_block_def two_bytes_def)
  moreover have "pass_bound (\<lambda>r. two_bytes) (code two_bytes_block) = 1"
    by (simp add: pass_bound_def two_bytes_block_def two_bytes_def)
  moreover have "assemble 1 two_bytes_block no_labels (\<lambda>r. two_bytes) = None"
    by (simp add: assemble_def two_bytes_block_def fix_point_body_def size_entry_def
        try_checks.simps two_bytes_def Let_def)
  ultimately show ?thesis using at_label_never_ends by simp
qed

text \<open>
  Claim C4, amended. When the deferred objects of the stream are well formed and as
  their constructor leaves them, every alternative has one size, and every label is
  placed once, \<open>assemble\<close> returns a result, without error, and the loop of the
  fix-point runs at most \<open>D * (A - 1) + 2\<close> times.
\<close>

theorem assemble_ends:
  assumes "well_formed D (code cb)" and "constructed D (code cb)"
    and "fixed_sizes D (code cb)" and "distinct (labels_of (code cb))"
  shows "\<exists>pos cb' L' D'.
     assemble (length (deferreds_of (code cb)) * (max_alternatives D (code cb) - 1) + 2) cb L D =
       Some (Inr (pos, cb', L', D'))"
proof -
  let ?fl = "fixups_of (code cb) 0"
  define L0 where "L0 = snd (create_fixups (code cb) 0 (startPos cb) L [])"
  have f: "create_fixups (code cb) 0 (startPos cb) L [] = (?fl, L0)"
    using create_fixups_fst [of "code cb" 0 "startPos cb" L "[]"]
    by (cases "create_fixups (code cb) 0 (startPos cb) L []") (simp add: L0_def)
  from fix_point_ends [OF assms(3,4), of "startPos cb" L0] obtain r where
    fp: "fix_point (length (deferreds_of (code cb)) * (max_alternatives D (code cb) - 1) + 2)
       ?fl (startPos cb) L0 D = Some r" ..
  have rd: "\<forall>d. DEF d \<in> snd ` set ?fl \<longrightarrow> ready D d"
  proof (intro allI impI)
    fix d assume "DEF d \<in> snd ` set ?fl"
    then have "d \<in> set (deferreds_of (code cb))" by (simp add: fixups_of_refs)
    with assms(1,2) show "ready D d"
      by (simp add: well_formed_def constructed_def ready_def)
  qed
  have ld: "\<forall>l. LBL l \<in> snd ` set ?fl \<longrightarrow> L0 l \<noteq> None"
    unfolding L0_def by (simp add: fixups_of_labels create_fixups_defined)
  from fix_point_succeeds [OF rd ld fp] obtain L' D' where
    r: "r = Inr (L', D')" and rd': "\<forall>d. DEF d \<in> snd ` set ?fl \<longrightarrow> ready D' d" by blast
  from fix_point_last [OF fp [unfolded r]] obtain D1 where
    "fix_point_body ?fl (startPos cb) L' D1 = Inr (L', D', False)" ..
  then have st: "label_pass ?fl D' (startPos cb) L' False = Inr (L', False)"
    by (rule fix_point_body_stable)
  from rd' have "\<forall>d \<in> set (deferreds_of (code cb)). current (D' d) < length (prods (D' d))"
    by (simp add: fixups_of_refs ready_def)
  from generate_succeeds [OF st this, of "[]"] obtain newCode pos where
    "generate (code cb) L' D' (startPos cb) [] = Inr (newCode, pos)" by auto
  with fp r show ?thesis
    unfolding assemble_def Let_def f by simp
qed

theorem assemble_ends_witness:
  "well_formed (\<lambda>r. two_forms) (code small_block) \<and>
   constructed (\<lambda>r. two_forms) (code small_block) \<and>
   fixed_sizes (\<lambda>r. two_forms) (code small_block) \<and>
   distinct (labels_of (code small_block)) \<and>
   length (deferreds_of (code small_block)) *
     (max_alternatives (\<lambda>r. two_forms) (code small_block) - 1) + 2 = 3 \<and>
   assemble 3 small_block no_labels (\<lambda>r. two_forms) =
     Some (Inr (107, small_block_assembled, no_labels(7 \<mapsto> 106),
                (\<lambda>r. two_forms)(0 := two_forms\<lparr>current := Suc 0, size_d := 5\<rparr>)))"
proof -
  have w: "well_formed (\<lambda>r. two_forms) (code small_block)"
    by (auto simp: well_formed_def small_block_def two_forms_def less_Suc_eq)
  have c: "constructed (\<lambda>r. two_forms) (code small_block)"
    by (simp add: constructed_def small_block_def two_forms_def)
  have f: "fixed_sizes (\<lambda>r. two_forms) (code small_block)"
    by (auto simp: fixed_sizes_def fixed_checks_def small_block_def two_forms_def less_Suc_eq)
  have d: "distinct (labels_of (code small_block))"
    by (simp add: small_block_def)
  have n: "length (deferreds_of (code small_block)) *
     (max_alternatives (\<lambda>r. two_forms) (code small_block) - 1) + 2 = 3"
    by (simp add: small_block_def two_forms_def)
  have a: "assemble 3 small_block no_labels (\<lambda>r. two_forms) =
     Some (Inr (107, small_block_assembled, no_labels(7 \<mapsto> 106),
                (\<lambda>r. two_forms)(0 := two_forms\<lparr>current := Suc 0, size_d := 5\<rparr>)))"
    by (simp add: assemble_def small_block_def small_block_assembled_def numeral_3_eq_3
        small_block_body1 small_block_body2)
       (simp add: two_forms_def)
  from assemble_ends [OF w c f d, of no_labels] w c f d n a show ?thesis by simp
qed

section \<open>The alternative index of a deferred object\<close>

lemma two_forms_body:
  "fix_point_body [(0, DEF 0)] 0 no_labels (\<lambda>r. two_forms) =
     Inr (no_labels, (\<lambda>r. two_forms)(0 := two_forms\<lparr>current := Suc 0, size_d := 5\<rparr>), True)"
  by (simp add: fix_point_body_def size_entry_def try_checks.simps two_forms_def Let_def)

lemma two_forms_body2:
  "fix_point_body [(0, DEF 0)] 0 no_labels ((\<lambda>r. two_forms)(0 := two_forms\<lparr>current := Suc 0, size_d := 5\<rparr>)) =
     Inr (no_labels, (\<lambda>r. two_forms)(0 := two_forms\<lparr>current := Suc 0, size_d := 5\<rparr>), False)"
  by (simp add: fix_point_body_def size_entry_def try_checks.simps two_forms_def Let_def)

lemma two_forms_fix_point:
  "fix_point 2 [(0, DEF 0)] 0 no_labels (\<lambda>r. two_forms) =
     Some (Inr (no_labels, (\<lambda>r. two_forms)(0 := two_forms\<lparr>current := Suc 0, size_d := 5\<rparr>)))"
  by (simp add: numeral_2_eq_2 two_forms_body two_forms_body2)

lemma two_forms_size_entry:
  "size_entry (0, DEF 0) no_labels 0 (\<lambda>r. two_forms) False = Inr (0, (\<lambda>r. two_forms)(0 := two_forms\<lparr>current := Suc 0, size_d := 5\<rparr>), True)"
  by (simp add: size_entry_def try_checks.simps two_forms_def Let_def)



lemma deferred_pass_walk:
  "deferred_pass fl L pos D ch = Inr (D', ch') \<longleftrightarrow>
     (\<exists>pos'. deferred_walk fl L pos D ch = Inr (pos', D', ch'))"
proof (induction fl arbitrary: pos D ch)
  case Nil
  then show ?case by auto
next
  case (Cons e fl)
  then show ?case by (auto split: sum.splits)
qed

lemma size_entry_rejected:
  assumes "size_entry (span, DEF d) L pos D ch = Inr (pos', D', ch')"
  shows "current (D d) \<le> current (D' d) \<and>
     (\<forall>k. current (D d) \<le> k \<and> k < current (D' d) \<longrightarrow> (checks (D d) ! k) L (pos + span) = None) \<and>
     (checks (D d) ! current (D' d)) L (pos + span) = Some (size_d (D' d))"
proof -
  let ?r = "try_checks (checks (D d)) L (pos + span) (current (D d))"
  from assms obtain newSize where
    t: "snd ?r = Some newSize" and
    D': "D' = D(d := (D d)\<lparr>current := fst ?r, size_d := newSize\<rparr>)"
    by (rule size_entry_DEF)
  from try_checks_accepted [OF t] D'
    try_checks_mono [of "current (D d)" "checks (D d)" L "pos + span"]
    try_checks_rejected [of "current (D d)" _ "checks (D d)" L "pos + span"]
  show ?thesis by simp
qed

lemma deferred_walk_current:
  "deferred_walk fl L pos D ch = Inr (pos', D', ch') \<Longrightarrow>
     current (D d) \<le> current (D' d) \<and> checks (D' d) = checks (D d)"
  using deferred_pass_walk [of fl L pos D ch D' ch'] deferred_pass_current [of fl L pos D ch D' ch' d]
  by blast

text \<open>
  Every alternative that the sizing loop has moved past was rejected in a visit of the
  deferred object, at the position of that visit.
\<close>

lemma deferred_pass_rejected:
  "deferred_pass fl L pos D ch = Inr (D', ch') \<Longrightarrow>
     current (D d) \<le> k \<Longrightarrow> k < current (D' d) \<Longrightarrow>
     \<exists>fl1 span fl2 pos1 D1 ch1 pos2 D2 ch2.
        fl = fl1 @ (span, DEF d) # fl2 \<and>
        deferred_walk fl1 L pos D ch = Inr (pos1, D1, ch1) \<and>
        size_entry (span, DEF d) L pos1 D1 ch1 = Inr (pos2, D2, ch2) \<and>
        current (D1 d) \<le> k \<and> k < current (D2 d) \<and>
        (checks (D d) ! k) L (pos1 + span) = None"
proof (induction fl arbitrary: pos D ch)
  case Nil
  then show ?case by simp
next
  case (Cons e fl)
  from Cons.prems(1) obtain pos1 D1 ch1 where
    e: "size_entry e L pos D ch = Inr (pos1, D1, ch1)" and
    r: "deferred_pass fl L pos1 D1 ch1 = Inr (D', ch')"
    by (auto split: sum.splits)
  show ?case
  proof (cases "k < current (D1 d)")
    case True
    have "snd e = DEF d"
    proof (rule ccontr)
      assume "snd e \<noteq> DEF d"
      from size_entry_frame [OF e this] True Cons.prems(2) show False by simp
    qed
    then have e': "e = (fst e, DEF d)" by (cases e) simp
    with e have s: "size_entry (fst e, DEF d) L pos D ch = Inr (pos1, D1, ch1)" by simp
    from size_entry_rejected [OF s] Cons.prems(2) True
    have "(checks (D d) ! k) L (pos + fst e) = None" by simp
    moreover have "e # fl = [] @ (fst e, DEF d) # fl" using e' by simp
    moreover have "deferred_walk [] L pos D ch = Inr (pos, D, ch)" by simp
    ultimately show ?thesis using s Cons.prems(2) True by blast
  next
    case False
    then have "current (D1 d) \<le> k" by simp
    from Cons.IH [OF r this Cons.prems(3)] obtain fl1 span fl2 pos2 D2 ch2 pos3 D3 ch3 where
      f: "fl = fl1 @ (span, DEF d) # fl2" and
      w: "deferred_walk fl1 L pos1 D1 ch1 = Inr (pos2, D2, ch2)" and
      s: "size_entry (span, DEF d) L pos2 D2 ch2 = Inr (pos3, D3, ch3)" and
      k: "current (D2 d) \<le> k" "k < current (D3 d)" and
      c: "(checks (D1 d) ! k) L (pos2 + span) = None"
      by blast
    from f have "e # fl = (e # fl1) @ (span, DEF d) # fl2" by simp
    moreover from w e have "deferred_walk (e # fl1) L pos D ch = Inr (pos2, D2, ch2)" by simp
    moreover from c size_entry_current [OF e, of d]
    have "(checks (D d) ! k) L (pos2 + span) = None" by simp
    ultimately show ?thesis using s k by blast
  qed
qed

lemma fix_point_body_rejected:
  assumes "fix_point_body fl start M E = Inr (M1, E1, c1)"
    and "current (E d) \<le> k" and "k < current (E1 d)"
  shows "\<exists>fl1 span fl2 pos1 D1 ch1 pos2 D2 ch2.
        fl = fl1 @ (span, DEF d) # fl2 \<and>
        deferred_walk fl1 M start E False = Inr (pos1, D1, ch1) \<and>
        size_entry (span, DEF d) M pos1 D1 ch1 = Inr (pos2, D2, ch2) \<and>
        current (D1 d) \<le> k \<and> k < current (D2 d) \<and>
        (checks (E d) ! k) M (pos1 + span) = None"
proof -
  from assms(1) obtain c where "deferred_pass fl M start E False = Inr (E1, c)"
    by (auto simp: fix_point_body_def split: sum.splits)
  from deferred_pass_rejected [OF this assms(2,3)] show ?thesis .
qed

text \<open>
  Over the whole loop: the alternative was rejected in a visit of the deferred object
  during one of the iterations, with the label positions of that iteration.
\<close>

lemma fix_point_rejected:
  "fix_point fuel fl start M E = Some (Inr (M2, E2)) \<Longrightarrow>
     current (E d) \<le> k \<Longrightarrow> k < current (E2 d) \<Longrightarrow>
     \<exists>n Mn En fl1 span fl2 pos1 D1 ch1 pos2 D2 ch2.
        iteration_state n fl start M E = Some (Mn, En) \<and>
        fl = fl1 @ (span, DEF d) # fl2 \<and>
        deferred_walk fl1 Mn start En False = Inr (pos1, D1, ch1) \<and>
        size_entry (span, DEF d) Mn pos1 D1 ch1 = Inr (pos2, D2, ch2) \<and>
        current (D1 d) \<le> k \<and> k < current (D2 d) \<and>
        (checks (E d) ! k) Mn (pos1 + span) = None"
proof (induction fuel arbitrary: M E)
  case 0
  then show ?case by simp
next
  case (Suc fuel)
  from Suc.prems(1) obtain M1 E1 c where
    b: "fix_point_body fl start M E = Inr (M1, E1, c)"
    by (auto split: sum.splits)
  show ?case
  proof (cases "k < current (E1 d)")
    case True
    from fix_point_body_rejected [OF b Suc.prems(2) True]
    obtain fl1 span fl2 pos1 D1 ch1 pos2 D2 ch2 where
      "fl = fl1 @ (span, DEF d) # fl2"
      "deferred_walk fl1 M start E False = Inr (pos1, D1, ch1)"
      "size_entry (span, DEF d) M pos1 D1 ch1 = Inr (pos2, D2, ch2)"
      "current (D1 d) \<le> k" "k < current (D2 d)"
      "(checks (E d) ! k) M (pos1 + span) = None"
      by blast
    moreover have "iteration_state 0 fl start M E = Some (M, E)" by simp
    ultimately show ?thesis by blast
  next
    case False
    then have k1: "current (E1 d) \<le> k" by simp
    have c
    proof (rule ccontr)
      assume "\<not> c"
      with Suc.prems(1) b have "E2 = E1" by simp
      with Suc.prems(3) False show False by simp
    qed
    with Suc.prems(1) b have r: "fix_point fuel fl start M1 E1 = Some (Inr (M2, E2))" by simp
    from Suc.IH [OF r k1 Suc.prems(3)]
    obtain n Mn En fl1 span fl2 pos1 D1 ch1 pos2 D2 ch2 where
      i: "iteration_state n fl start M1 E1 = Some (Mn, En)" and
      rest: "fl = fl1 @ (span, DEF d) # fl2"
      "deferred_walk fl1 Mn start En False = Inr (pos1, D1, ch1)"
      "size_entry (span, DEF d) Mn pos1 D1 ch1 = Inr (pos2, D2, ch2)"
      "current (D1 d) \<le> k" "k < current (D2 d)" and
      ck: "(checks (E1 d) ! k) Mn (pos1 + span) = None"
      by blast
    from i b \<open>c\<close> have "iteration_state (Suc n) fl start M E = Some (Mn, En)" by simp
    moreover from ck fix_point_body_current [OF b, of d]
    have "(checks (E d) ! k) Mn (pos1 + span) = None" by simp
    ultimately show ?thesis using rest by blast
  qed
qed

text \<open>
  Claim C3. In the fix-point of \<open>assemble\<close> the index \<open>current\<close> of a deferred object
  never decreases and moves past an alternative only when the check procedure of that
  alternative has returned \<open>null\<close> where it was called. For one entry of the sizing
  loop: \<open>current\<close> does not decrease, every alternative it has moved past returned
  \<open>null\<close> for the label positions and at the position of that entry, the alternative
  it stands on returned the stored size there, and the index of every other deferred
  object is unchanged. For one iteration of the loop, from any state, and for the whole
  loop: \<open>current\<close> does not decrease, and every alternative it has moved past returned
  \<open>null\<close> in a visit of the deferred object during the sizing loop of an iteration,
  at the position and with the label positions of that visit.
\<close>

theorem current_never_rewinds:
  "(size_entry (span, DEF d) L pos D ch = Inr (pos', D', ch') \<longrightarrow>
      current (D d) \<le> current (D' d) \<and>
      (\<forall>k. current (D d) \<le> k \<and> k < current (D' d) \<longrightarrow>
         (checks (D d) ! k) L (pos + span) = None) \<and>
      (checks (D d) ! current (D' d)) L (pos + span) = Some (size_d (D' d))) \<and>
   (size_entry e L pos D ch = Inr (pos', D', ch') \<and> snd e \<noteq> DEF d \<longrightarrow>
      current (D' d) = current (D d)) \<and>
   (fix_point_body fl start M E = Inr (M1, E1, c1) \<longrightarrow>
      current (E d) \<le> current (E1 d) \<and>
      (\<forall>k. current (E d) \<le> k \<and> k < current (E1 d) \<longrightarrow>
         (\<exists>fl1 span1 fl2 pos1 D1 ch1 pos2 D2 ch2.
            fl = fl1 @ (span1, DEF d) # fl2 \<and>
            deferred_walk fl1 M start E False = Inr (pos1, D1, ch1) \<and>
            size_entry (span1, DEF d) M pos1 D1 ch1 = Inr (pos2, D2, ch2) \<and>
            current (D1 d) \<le> k \<and> k < current (D2 d) \<and>
            (checks (E d) ! k) M (pos1 + span1) = None))) \<and>
   (fix_point fuel fl start M E = Some (Inr (M2, E2)) \<longrightarrow>
      current (E d) \<le> current (E2 d) \<and>
      (\<forall>k. current (E d) \<le> k \<and> k < current (E2 d) \<longrightarrow>
         (\<exists>n Mn En fl1 span1 fl2 pos1 D1 ch1 pos2 D2 ch2.
            iteration_state n fl start M E = Some (Mn, En) \<and>
            fl = fl1 @ (span1, DEF d) # fl2 \<and>
            deferred_walk fl1 Mn start En False = Inr (pos1, D1, ch1) \<and>
            size_entry (span1, DEF d) Mn pos1 D1 ch1 = Inr (pos2, D2, ch2) \<and>
            current (D1 d) \<le> k \<and> k < current (D2 d) \<and>
            (checks (E d) ! k) Mn (pos1 + span1) = None)))"
proof -
  have 1: "current (D d) \<le> current (D' d) \<and>
      (\<forall>k. current (D d) \<le> k \<and> k < current (D' d) \<longrightarrow>
         (checks (D d) ! k) L (pos + span) = None) \<and>
      (checks (D d) ! current (D' d)) L (pos + span) = Some (size_d (D' d))"
    if "size_entry (span, DEF d) L pos D ch = Inr (pos', D', ch')"
    using that by (rule size_entry_rejected)
  have 2: "current (D' d) = current (D d)"
    if "size_entry e L pos D ch = Inr (pos', D', ch') \<and> snd e \<noteq> DEF d"
    using that size_entry_frame [of e L pos D ch pos' D' ch' d] by simp
  have 3: "current (E d) \<le> current (E1 d) \<and>
      (\<forall>k. current (E d) \<le> k \<and> k < current (E1 d) \<longrightarrow>
         (\<exists>fl1 span1 fl2 pos1 D1 ch1 pos2 D2 ch2.
            fl = fl1 @ (span1, DEF d) # fl2 \<and>
            deferred_walk fl1 M start E False = Inr (pos1, D1, ch1) \<and>
            size_entry (span1, DEF d) M pos1 D1 ch1 = Inr (pos2, D2, ch2) \<and>
            current (D1 d) \<le> k \<and> k < current (D2 d) \<and>
            (checks (E d) ! k) M (pos1 + span1) = None))"
    if b: "fix_point_body fl start M E = Inr (M1, E1, c1)"
    using fix_point_body_current [OF b, of d] fix_point_body_rejected [OF b] by blast
  have 4: "current (E d) \<le> current (E2 d) \<and>
      (\<forall>k. current (E d) \<le> k \<and> k < current (E2 d) \<longrightarrow>
         (\<exists>n Mn En fl1 span1 fl2 pos1 D1 ch1 pos2 D2 ch2.
            iteration_state n fl start M E = Some (Mn, En) \<and>
            fl = fl1 @ (span1, DEF d) # fl2 \<and>
            deferred_walk fl1 Mn start En False = Inr (pos1, D1, ch1) \<and>
            size_entry (span1, DEF d) Mn pos1 D1 ch1 = Inr (pos2, D2, ch2) \<and>
            current (D1 d) \<le> k \<and> k < current (D2 d) \<and>
            (checks (E d) ! k) Mn (pos1 + span1) = None))"
    if f: "fix_point fuel fl start M E = Some (Inr (M2, E2))"
    using fix_point_current [OF f, of d] fix_point_rejected [OF f] by blast
  from 1 2 3 4 show ?thesis by blast
qed

theorem current_never_rewinds_witness:
  "size_entry (0, DEF 0) no_labels 0 (\<lambda>r. two_forms) False = Inr (0, (\<lambda>r. two_forms)(0 := two_forms\<lparr>current := Suc 0, size_d := 5\<rparr>), True) \<and>
   snd (0 :: int, DEF 0) \<noteq> DEF 1 \<and>
   fix_point_body [(0, DEF 0)] 0 no_labels (\<lambda>r. two_forms) = Inr (no_labels, (\<lambda>r. two_forms)(0 := two_forms\<lparr>current := Suc 0, size_d := 5\<rparr>), True) \<and>
   fix_point 2 [(0, DEF 0)] 0 no_labels (\<lambda>r. two_forms) = Some (Inr (no_labels, (\<lambda>r. two_forms)(0 := two_forms\<lparr>current := Suc 0, size_d := 5\<rparr>))) \<and>
   deferred_walk [] no_labels 0 (\<lambda>r. two_forms) False = Inr (0, \<lambda>r. two_forms, False) \<and>
   iteration_state 0 [(0, DEF 0)] 0 no_labels (\<lambda>r. two_forms) = Some (no_labels, \<lambda>r. two_forms) \<and>
   current ((\<lambda>r. two_forms) (0 :: nat)) = 0 \<and>
   current (((\<lambda>r. two_forms)(0 := two_forms\<lparr>current := Suc 0, size_d := 5\<rparr>)) 0) = Suc 0 \<and>
   current (((\<lambda>r. two_forms)(0 := two_forms\<lparr>current := Suc 0, size_d := 5\<rparr>)) (1 :: nat)) =
     current ((\<lambda>r. two_forms) (1 :: nat)) \<and>
   (checks two_forms ! 0) no_labels (0 + 0) = None \<and>
   (checks two_forms ! Suc 0) no_labels (0 + 0) = Some 5"
proof -
  note s = two_forms_size_entry and b = two_forms_body and f = two_forms_fix_point
  have n: "snd (0 :: int, DEF 0) \<noteq> DEF 1" by simp
  from current_never_rewinds [where span = 0 and d = 0 and L = no_labels and pos = 0
      and D = "\<lambda>r. two_forms" and ch = False and pos' = 0 and D' = "(\<lambda>r. two_forms)(0 := two_forms\<lparr>current := Suc 0, size_d := 5\<rparr>)" and ch' = True
      and e = "(0, DEF 0)" and fl = "[(0, DEF 0)]" and start = 0 and M = no_labels
      and E = "\<lambda>r. two_forms" and ?M1.0 = no_labels and ?E1.0 = "(\<lambda>r. two_forms)(0 := two_forms\<lparr>current := Suc 0, size_d := 5\<rparr>)" and ?c1.0 = True
      and fuel = 2 and ?M2.0 = no_labels and ?E2.0 = "(\<lambda>r. two_forms)(0 := two_forms\<lparr>current := Suc 0, size_d := 5\<rparr>)"]
    current_never_rewinds [where d = 1 and L = no_labels and pos = 0
      and D = "\<lambda>r. two_forms" and ch = False and pos' = 0 and D' = "(\<lambda>r. two_forms)(0 := two_forms\<lparr>current := Suc 0, size_d := 5\<rparr>)" and ch' = True
      and e = "(0, DEF 0)"]
    s b f n
  show ?thesis by (simp add: two_forms_def)
qed

section \<open>Properties of addresses\<close>

subsection \<open>The bitwise operators on small numbers\<close>

lemma and_65535: "(n::int) AND 65535 = n mod 65536"
proof -
  have "(65535::int) = mask 16" by (simp add: mask_eq_exp_minus_1)
  then have "n AND 65535 = take_bit 16 n" by (simp only: take_bit_eq_mask)
  then show ?thesis by (simp add: take_bit_eq_mod)
qed

lemma ToInt32_small: "- 2147483648 \<le> n \<Longrightarrow> n < 2147483648 \<Longrightarrow> ToInt32 (Number n) = n"
  by (simp add: signed_take_bit_int_eq_self)

lemma js_and_limb: "0 \<le> n \<Longrightarrow> n < 2147483648 \<Longrightarrow> js_and (Number n) (Number 65535) = n mod 65536"
  by (simp add: js_and_def ToInt32_small and_65535 signed_take_bit_int_eq_self)

lemma js_shr_16: "0 \<le> n \<Longrightarrow> n < 2147483648 \<Longrightarrow> js_shr (Number n) 16 = n div 65536"
  by (simp add: js_shr_def ToInt32_small drop_bit_eq_div signed_take_bit_int_eq_self)


subsection \<open>addOffset and subOffset\<close>

lemma addr_FFFFFFFC_bytes: "address [252, 255, 255, 255] False = Inr addr_FFFFFFFC"
  by code_simp

lemma addr_FFFFFFFC_addOffset: "addOffset fuel addr_FFFFFFFC 4 = Some (Inl AddressOverflow)"
  by (simp add: addOffset_def addOffset_body_def addr_FFFFFFFC_def addOffset_loop.simps
      js_and_limb js_shr_16 elem_def store_def)

lemma sub_stuck:
  "length this \<le> i \<Longrightarrow> subOffset_loop fuel this new (- 1) opnd i = None"
  by (induction fuel arbitrary: new opnd i) (simp_all add: elem_def)

lemma addr_0_subOffset: "subOffset fuel addr_0 1 = None"
proof -
  have "subOffset_loop fuel [Number 0, Number 0] [Number 0, Number 0] 0 1 0 = None"
  proof (cases fuel)
    case 0
    then show ?thesis by simp
  next
    case (Suc f1)
    show ?thesis
    proof (cases f1)
      case 0
      with Suc show ?thesis
        by (simp add: js_and_limb js_shr_16 elem_def store_def)
    next
      case (Suc f2)
      with \<open>fuel = Suc f1\<close> show ?thesis
        by (cases f2) (simp_all add: js_and_limb js_shr_16 elem_def store_def sub_stuck)
    qed
  qed
  then show ?thesis
    by (simp add: subOffset_def subOffset_body_def addr_0_def)
qed



text \<open>
  Claim C7. \<open>asm.address([0xFC, 0xFF, 0xFF, 0xFF]).addOffset(4)\<close> fails with
  "Address overflow", as the claim says. \<open>asm.address([0, 0, 0, 0]).subOffset(1)\<close>
  should fail with "Address underflow"; its loop goes on while \<open>carry\<close> is not 0,
  \<open>carry\<close> stays \<open>-1\<close> beyond the last element, and the loop never ends, whatever
  the number of iterations allowed.
\<close>

theorem subOffset_underflow_never_returns:
  "address [252, 255, 255, 255] False = Inr addr_FFFFFFFC \<and>
   addOffset fuel addr_FFFFFFFC 4 = Some (Inl AddressOverflow) \<and>
   address [0, 0, 0, 0] False = Inr addr_0 \<and>
   subOffset fuel addr_0 1 = None"
proof -
  have "address [0, 0, 0, 0] False = Inr addr_0" by code_simp
  with addr_FFFFFFFC_bytes addr_FFFFFFFC_addOffset addr_0_subOffset show ?thesis by simp
qed

subsection \<open>complement\<close>

lemma neg_mod_65536: "0 < a \<Longrightarrow> a \<le> 65535 \<Longrightarrow> (- a) mod 65536 = 65536 - (a::int)"
proof -
  assume a: "0 < a" "a \<le> 65535"
  have "(- a) mod 65536 = (- a + 65536) mod 65536" by (simp only: mod_add_self2)
  also have "\<dots> = - a + 65536" using a by (intro mod_pos_pos_trivial) simp_all
  finally show ?thesis by simp
qed

lemmas addr_eval = neg_mod_65536 complement_def addOffset_body_def complement_loop.simps addOffset_loop.simps
  addAddress_def addAddress_loop.simps width_def elem_def store_def js_and_limb js_shr_16 Let_def






lemma neg2_a:
  assumes "0 < a0" "a0 \<le> 65535" "0 \<le> a1" "a1 \<le> 65535"
  shows "\<exists>c. complement \<lparr>addrElemArray = [Number a0, Number a1], bigEndian_addr = be\<rparr> = Inr c \<and>
     addAddress \<lparr>addrElemArray = [Number a0, Number a1], bigEndian_addr = be\<rparr> c =
       Inr \<lparr>addrElemArray = [Number 0, Number 0], bigEndian_addr = be\<rparr>"
  using assms by (simp add: addr_eval)

lemma neg2_b:
  assumes "0 < a1" "a1 \<le> 65535"
  shows "\<exists>c. complement \<lparr>addrElemArray = [Number 0, Number a1], bigEndian_addr = be\<rparr> = Inr c \<and>
     addAddress \<lparr>addrElemArray = [Number 0, Number a1], bigEndian_addr = be\<rparr> c =
       Inr \<lparr>addrElemArray = [Number 0, Number 0], bigEndian_addr = be\<rparr>"
  using assms by (simp add: addr_eval)

lemma neg4_a:
  assumes "0 < a0" "a0 \<le> 65535" "0 \<le> a1" "a1 \<le> 65535" "0 \<le> a2" "a2 \<le> 65535" "0 \<le> a3" "a3 \<le> 65535"
  shows "\<exists>c. complement \<lparr>addrElemArray = [Number a0, Number a1, Number a2, Number a3], bigEndian_addr = be\<rparr> = Inr c \<and>
     addAddress \<lparr>addrElemArray = [Number a0, Number a1, Number a2, Number a3], bigEndian_addr = be\<rparr> c =
       Inr \<lparr>addrElemArray = [Number 0, Number 0, Number 0, Number 0], bigEndian_addr = be\<rparr>"
  using assms by (simp add: addr_eval)

lemma neg4_b:
  assumes "0 < a1" "a1 \<le> 65535" "0 \<le> a2" "a2 \<le> 65535" "0 \<le> a3" "a3 \<le> 65535"
  shows "\<exists>c. complement \<lparr>addrElemArray = [Number 0, Number a1, Number a2, Number a3], bigEndian_addr = be\<rparr> = Inr c \<and>
     addAddress \<lparr>addrElemArray = [Number 0, Number a1, Number a2, Number a3], bigEndian_addr = be\<rparr> c =
       Inr \<lparr>addrElemArray = [Number 0, Number 0, Number 0, Number 0], bigEndian_addr = be\<rparr>"
  using assms by (simp add: addr_eval)

lemma neg4_c:
  assumes "0 < a2" "a2 \<le> 65535" "0 \<le> a3" "a3 \<le> 65535"
  shows "\<exists>c. complement \<lparr>addrElemArray = [Number 0, Number 0, Number a2, Number a3], bigEndian_addr = be\<rparr> = Inr c \<and>
     addAddress \<lparr>addrElemArray = [Number 0, Number 0, Number a2, Number a3], bigEndian_addr = be\<rparr> c =
       Inr \<lparr>addrElemArray = [Number 0, Number 0, Number 0, Number 0], bigEndian_addr = be\<rparr>"
  using assms by (simp add: addr_eval)

lemma neg4_d:
  assumes "0 < a3" "a3 \<le> 65535"
  shows "\<exists>c. complement \<lparr>addrElemArray = [Number 0, Number 0, Number 0, Number a3], bigEndian_addr = be\<rparr> = Inr c \<and>
     addAddress \<lparr>addrElemArray = [Number 0, Number 0, Number 0, Number a3], bigEndian_addr = be\<rparr> c =
       Inr \<lparr>addrElemArray = [Number 0, Number 0, Number 0, Number 0], bigEndian_addr = be\<rparr>"
  using assms by (simp add: addr_eval)
lemma length_2_list: "length xs = 2 \<Longrightarrow> \<exists>x0 x1. xs = [x0, x1]"
  by (auto simp: length_Suc_conv numeral_2_eq_2)

lemma length_4_list: "length xs = 4 \<Longrightarrow> \<exists>x0 x1 x2 x3. xs = [x0, x1, x2, x3]"
  by (auto simp: length_Suc_conv eval_nat_numeral)

lemma is_limb_Number: "is_limb x \<Longrightarrow> \<exists>n. x = Number n \<and> 0 \<le> n \<and> n \<le> 65535"
  by (cases x) auto

text \<open>
  The address 0 has no complement: every element becomes \<open>0xFFFF\<close>, and
  \<open>addOffset(1)\<close> carries out of the last element.
\<close>

lemma complement_zero: "complement addr_0 = Inl AddressOverflow"
  by (simp add: addr_0_def addr_eval)

text \<open>
  The address 2: \<open>complement()\<close> is \<open>0xFFFFFFFE\<close>, \<open>addOffset(1)\<close> makes it
  \<open>0xFFFFFFFF\<close>, and adding that to the address gives 1, not 0.
\<close>

theorem complement_addOffset_counterexample:
  "(case complement addr_2 of
      Inl err \<Rightarrow> None
    | Inr c \<Rightarrow>
        (case addOffset 0 c 1 of
           Some (Inr c1) \<Rightarrow> Some (c, c1, addAddress addr_2 c1)
         | _ \<Rightarrow> None)) =
   Some (\<lparr>addrElemArray = [Number 65534, Number 65535], bigEndian_addr = False\<rparr>,
         \<lparr>addrElemArray = [Number 65535, Number 65535], bigEndian_addr = False\<rparr>,
         Inr \<lparr>addrElemArray = [Number 1, Number 0], bigEndian_addr = False\<rparr>)"
  by (simp add: addr_2_def addOffset_def addr_eval)

text \<open>
  Claim C8, amended. For every address of 2 or 4 elements from 0 to 65535 that is not
  0, \<open>complement()\<close> succeeds and adding its result to the address with \<open>addAddress\<close>
  gives the address 0 of the same width: \<open>complement()\<close> alone is the two's-complement
  negation.
\<close>

theorem complement_negates:
  assumes "valid_address a" and "\<not> zero_address a"
  shows "\<exists>c. complement a = Inr c \<and>
     addAddress a c = Inr (a\<lparr>addrElemArray := replicate (length (addrElemArray a)) (Number 0)\<rparr>)"
proof -
  obtain arr be where a: "a = \<lparr>addrElemArray = arr, bigEndian_addr = be\<rparr>"
    by (cases a) auto
  from assms(1) a have len: "length arr = 2 \<or> length arr = 4" and limbs: "list_all is_limb arr"
    by (simp_all add: valid_address_def)
  from len show ?thesis
  proof
    assume "length arr = 2"
    then obtain x0 x1 where arr: "arr = [x0, x1]" using length_2_list by blast
    with limbs obtain a0 a1 where
      x: "x0 = Number a0" "x1 = Number a1" and
      b: "0 \<le> a0" "a0 \<le> 65535" "0 \<le> a1" "a1 \<le> 65535"
      using is_limb_Number [of x0] is_limb_Number [of x1] by auto
    from assms(2) a arr x have nz: "a0 \<noteq> 0 \<or> a1 \<noteq> 0" by (auto simp: zero_address_def)
    show ?thesis
    proof (cases "a0 = 0")
      case False
      with b neg2_a [of a0 a1 be] a arr x show ?thesis by simp
    next
      case True
      with nz b neg2_b [of a1 be] a arr x show ?thesis by simp
    qed
  next
    assume "length arr = 4"
    then obtain x0 x1 x2 x3 where arr: "arr = [x0, x1, x2, x3]" using length_4_list by blast
    with limbs obtain a0 a1 a2 a3 where
      x: "x0 = Number a0" "x1 = Number a1" "x2 = Number a2" "x3 = Number a3" and
      b: "0 \<le> a0" "a0 \<le> 65535" "0 \<le> a1" "a1 \<le> 65535"
         "0 \<le> a2" "a2 \<le> 65535" "0 \<le> a3" "a3 \<le> 65535"
      using is_limb_Number [of x0] is_limb_Number [of x1]
        is_limb_Number [of x2] is_limb_Number [of x3] by auto
    from assms(2) a arr x have nz: "a0 \<noteq> 0 \<or> a1 \<noteq> 0 \<or> a2 \<noteq> 0 \<or> a3 \<noteq> 0"
      by (auto simp: zero_address_def)
    have r: "replicate 4 (Number 0) = [Number 0, Number 0, Number 0, Number 0]"
      by (simp add: eval_nat_numeral)
    show ?thesis
    proof (cases "a0 = 0")
      case False
      with b neg4_a [of a0 a1 a2 a3 be] a arr x r show ?thesis by simp
    next
      case a0: True
      show ?thesis
      proof (cases "a1 = 0")
        case False
        with a0 b neg4_b [of a1 a2 a3 be] a arr x r show ?thesis by simp
      next
        case a1: True
        show ?thesis
        proof (cases "a2 = 0")
          case False
          with a0 a1 b neg4_c [of a2 a3 be] a arr x r show ?thesis by simp
        next
          case True
          with a0 a1 nz b neg4_d [of a3 be] a arr x r show ?thesis by simp
        qed
      qed
    qed
  qed
qed

theorem complement_negates_witness:
  "valid_address addr_2 \<and> \<not> zero_address addr_2 \<and>
   complement addr_2 = Inr \<lparr>addrElemArray = [Number 65534, Number 65535], bigEndian_addr = False\<rparr> \<and>
   addAddress addr_2 \<lparr>addrElemArray = [Number 65534, Number 65535], bigEndian_addr = False\<rparr> =
     Inr \<lparr>addrElemArray = [Number 0, Number 0], bigEndian_addr = False\<rparr>"
proof -
  have v: "valid_address addr_2" and z: "\<not> zero_address addr_2"
    by (simp_all add: valid_address_def zero_address_def addr_2_def)
  have c: "complement addr_2 =
      Inr \<lparr>addrElemArray = [Number 65534, Number 65535], bigEndian_addr = False\<rparr>"
    by (simp add: addr_2_def addr_eval)
  from complement_negates [OF v z] c v z show ?thesis
    by (simp add: addr_2_def numeral_2_eq_2)
qed

section \<open>Properties of link\<close>

lemma link_bytes_writes:
  "0 \<le> index \<Longrightarrow> index + int (length bs) \<le> int (length block) \<Longrightarrow>
     link_bytes index block bs =
       Inr (take (nat index) block @ bs @ drop (nat index + length bs) block)"
proof (induction bs arbitrary: index block)
  case Nil
  then show ?case by simp
next
  case (Cons b bs)
  from Cons.prems have i: "nat index < length block" by simp
  from Cons.prems have w: "writeToMemoryBlock block index b = Inr (block[nat index := b])"
    by (simp add: writeToMemoryBlock_def)
  from Cons.prems have "link_bytes (index + 1) (block[nat index := b]) bs =
      Inr (take (nat (index + 1)) (block[nat index := b]) @ bs @
           drop (nat (index + 1) + length bs) (block[nat index := b]))"
    by (intro Cons.IH) simp_all
  moreover from Cons.prems have n: "nat (index + 1) = Suc (nat index)" by simp
  moreover from i have "take (Suc (nat index)) (block[nat index := b]) = take (nat index) block @ [b]"
    by (simp add: take_Suc_conv_app_nth)
  ultimately show ?case using w by simp
qed

lemma patch_length:
  "0 \<le> getOffset r \<Longrightarrow> getOffset r + int (length (linkValue r)) \<le> int (length block) \<Longrightarrow>
     length (patch block r) = length block"
  by (simp add: patch_def)

lemma link_site_patch:
  "0 \<le> getOffset r \<Longrightarrow> getOffset r + int (length (linkValue r)) \<le> int (length block) \<Longrightarrow>
     link_site block r = Inr (patch block r)"
  by (simp add: link_site_def patch_def link_bytes_writes)

lemma link_sites_patch:
  "\<forall>r \<in> set rs. 0 \<le> getOffset r \<and> getOffset r + int (length (linkValue r)) \<le> int (length block) \<Longrightarrow>
     link_sites block rs = Inr (foldl patch block rs)"
proof (induction rs arbitrary: block)
  case Nil
  then show ?case by simp
next
  case (Cons r rs)
  from Cons.prems have r: "0 \<le> getOffset r" "getOffset r + int (length (linkValue r)) \<le> int (length block)"
    by simp_all
  from Cons.prems patch_length [OF r]
  have "\<forall>q \<in> set rs. 0 \<le> getOffset q \<and>
      getOffset q + int (length (linkValue q)) \<le> int (length (patch block r))" by simp
  from Cons.IH [OF this] link_site_patch [OF r] show ?case by simp
qed

text \<open>
  The link object of the only required object is 32 bits wide and its link value has
  two bytes: \<open>link\<close> does not fail, and writes the two bytes at offsets 0 and 1.
\<close>

theorem link_length_counterexample:
  "link short_value_block = Inr (short_value_block\<lparr>bytes := [1, 2, 0, 0]\<rparr>) \<and>
   map (\<lambda>r. (int (length (linkValue r)), linkObj_width r div 8)) (requiredArray short_value_block) =
     [(2, 4)]"
  by (simp add: link_def link_site_def short_value_block_def writeToMemoryBlock_def)

text \<open>
  Claim C9, amended. For every required object of a machine code block, \<open>link\<close>
  writes exactly the bytes that \<open>linkValue()\<close> returns at the offsets from
  \<open>getOffset()\<close> on, as many as there are, whatever \<open>width()\<close> is, provided they
  lie inside the block: the length of the link value is not compared with
  \<open>width()/8\<close>. The block that \<open>link\<close> leaves is the block patched with the link
  value of every required object, one after the other in the order of the array.
\<close>

theorem link_writes_link_value:
  "(0 \<le> getOffset r \<and> getOffset r + int (length (linkValue r)) \<le> int (length block) \<longrightarrow>
      link_site block r =
        Inr (take (nat (getOffset r)) block @ linkValue r @
             drop (nat (getOffset r) + length (linkValue r)) block)) \<and>
   ((\<forall>q \<in> set (requiredArray mcb).
        0 \<le> getOffset q \<and> getOffset q + int (length (linkValue q)) \<le> int (length (bytes mcb))) \<longrightarrow>
      link mcb = Inr (mcb\<lparr>bytes := foldl patch (bytes mcb) (requiredArray mcb)\<rparr>))"
  using link_site_patch [of r block] link_sites_patch [of "requiredArray mcb" "bytes mcb"]
  by (simp add: link_def patch_def)

theorem link_writes_link_value_witness:
  "list_all (\<lambda>q. 0 \<le> getOffset q \<and>
       getOffset q + int (length (linkValue q)) \<le> int (length (bytes two_sites_block)))
     (requiredArray two_sites_block) \<and>
   map linkObj_width (requiredArray two_sites_block) = [32, 16] \<and>
   foldl patch (bytes two_sites_block) (requiredArray two_sites_block) = [1, 3, 4, 5] \<and>
   link two_sites_block = Inr (two_sites_block\<lparr>bytes := [1, 3, 4, 5]\<rparr>) \<and>
   link_site [0, 0, 0, 0] \<lparr>getOffset = 1, linkValue = [7, 8], linkObj_width = 64\<rparr> =
     Inr [0, 7, 8, 0]"
proof -
  have h: "\<forall>q \<in> set (requiredArray two_sites_block).
      0 \<le> getOffset q \<and> getOffset q + int (length (linkValue q)) \<le> int (length (bytes two_sites_block))"
    by (simp add: two_sites_block_def)
  have p: "foldl patch (bytes two_sites_block) (requiredArray two_sites_block) = [1, 3, 4, 5]"
    by (simp add: two_sites_block_def patch_def)
  from link_writes_link_value
      [of "\<lparr>getOffset = 1, linkValue = [7, 8], linkObj_width = 64\<rparr>" "[0, 0, 0, 0]" two_sites_block]
    h p
  show ?thesis by (simp add: list_all_iff) (simp add: two_sites_block_def)
qed

end
